theory Spec2Isabelle
  imports Complex_Main "HOL-Library.Word" "HOL-Library.Log_Nat"
begin

unbundle bit_operations_syntax

section \<open>tinypdf: a shallow embedding of the PDF builder and the markdown layout\<close>

text \<open>
  The development follows the current engine of the repository (the first of the two copies
  of the engine in the source file): \<open>measureText\<close>, \<open>parseColor\<close>, \<open>colorOp\<close>,
  \<open>parseJpeg\<close>, \<open>pdfString\<close>, \<open>serialize\<close>, the builder returned by \<open>pdf()\<close> with its
  closures \<open>addObject\<close>, \<open>page\<close> and \<open>build\<close>, and, of \<open>markdown\<close>, the closure \<open>wrap\<close> and
  the pagination loop.

  Conventions.
  \<^item> A JavaScript string is the list of its UTF-16 code units (\<open>16 word\<close>); a \<open>Uint8Array\<close> is
    a list of bytes (\<open>8 word\<close>). \<open>js\<close> turns an ASCII literal into a JavaScript string.
  \<^item> A JavaScript number is modelled by the exact rational value of a finite double. Every
    arithmetic operation of the source is the exact operation followed by \<open>fl\<close>, rounding to
    the nearest binary64 value, ties to even. \<open>NaN\<close>, the infinities and negative zero are
    outside the model, and so is overflow (\<open>fl\<close> has no largest exponent).
  \<^item> A thrown \<open>Error\<close> is a value of type \<open>error\<close>; an operation of the builder returns
    its outcome together with the builder state it leaves behind.
\<close>

subsection \<open>Strings and bytes\<close>

type_synonym byte = "8 word"
type_synonym jschar = "16 word"
type_synonym jsstring = "jschar list"

definition js :: "string \<Rightarrow> jsstring" where
  "js s = map of_char s"

definition LF :: jschar where "LF = 0x0A"
definition CR :: jschar where "CR = 0x0D"
definition BACKSLASH :: jschar where "BACKSLASH = 0x5C"
definition LPAREN :: jschar where "LPAREN = 0x28"
definition RPAREN :: jschar where "RPAREN = 0x29"
definition SLASH :: jschar where "SLASH = 0x2F"

text \<open>\<open>Array.prototype.join\<close> on strings.\<close>

fun join :: "jsstring \<Rightarrow> jsstring list \<Rightarrow> jsstring" where
  "join sep [] = []"
| "join sep [x] = x"
| "join sep (x # y # ys) = x @ sep @ join sep (y # ys)"

text \<open>\<open>String(n)\<close> and \<open>`${n}`\<close> for a non-negative safe integer (ids, counts, lengths, offsets).\<close>

fun String_nat :: "nat \<Rightarrow> jsstring" where
  "String_nat n =
     (if n < 10 then [of_nat (48 + n)] else String_nat (n div 10) @ [of_nat (48 + n mod 10)])"

declare String_nat.simps [simp del]

text \<open>\<open>s.padStart(n, '0')\<close>: never truncates.\<close>

definition padStart :: "nat \<Rightarrow> jsstring \<Rightarrow> jsstring" where
  "padStart n s = replicate (n - length s) 0x30 @ s"

text \<open>\<open>str.replace(/c/g, r)\<close> for a pattern matching the single code unit \<open>c\<close>.\<close>

definition replaceAll :: "jschar \<Rightarrow> jsstring \<Rightarrow> jsstring \<Rightarrow> jsstring" where
  "replaceAll c r s = concat (map (\<lambda>x. if x = c then r else [x]) s)"

text \<open>
  \<open>new TextEncoder().encode(s)\<close>: UTF-8. A surrogate pair is one code point of four bytes,
  a lone surrogate is replaced by U+FFFD.
\<close>

definition isHigh :: "jschar \<Rightarrow> bool" where
  "isHigh c = (0xD800 \<le> unat c \<and> unat c \<le> 0xDBFF)"

definition isLow :: "jschar \<Rightarrow> bool" where
  "isLow c = (0xDC00 \<le> unat c \<and> unat c \<le> 0xDFFF)"

definition utf8cp :: "nat \<Rightarrow> byte list" where
  "utf8cp n =
     (if n < 0x80 then [of_nat n]
      else if n < 0x800 then [of_nat (0xC0 + n div 64), of_nat (0x80 + n mod 64)]
      else if n < 0x10000 then
        [of_nat (0xE0 + n div 4096), of_nat (0x80 + n div 64 mod 64), of_nat (0x80 + n mod 64)]
      else [of_nat (0xF0 + n div 262144), of_nat (0x80 + n div 4096 mod 64),
            of_nat (0x80 + n div 64 mod 64), of_nat (0x80 + n mod 64)])"

fun encode :: "jsstring \<Rightarrow> byte list" where
  "encode [] = []"
| "encode [c] = (if isHigh c \<or> isLow c then utf8cp 0xFFFD else utf8cp (unat c))"
| "encode (c # d # s) =
     (if isHigh c \<and> isLow d
        then utf8cp (0x10000 + (unat c - 0xD800) * 1024 + (unat d - 0xDC00)) @ encode s
      else if isHigh c \<or> isLow c then utf8cp 0xFFFD @ encode (d # s)
      else utf8cp (unat c) @ encode (d # s))"

subsection \<open>Numbers\<close>

text \<open>\<open>pow2 e\<close> is \<open>2\<^sup>e\<close>; \<open>ilog2 a\<close> is the exponent of the binade of a positive \<open>a\<close>.\<close>

definition pow2 :: "int \<Rightarrow> rat" where
  "pow2 e = (if 0 \<le> e then 2 ^ nat e else 1 / 2 ^ nat (- e))"

definition ilog2 :: "rat \<Rightarrow> int" where
  "ilog2 a = (if 1 \<le> a then bitlen \<lfloor>a\<rfloor> - 1 else - bitlen (\<lceil>1 / a\<rceil> - 1))"

text \<open>Round to the nearest integer, ties to even.\<close>

definition rne :: "rat \<Rightarrow> int" where
  "rne x = (let f = \<lfloor>x\<rfloor>; d = x - of_int f in
     if d < 1 / 2 then f else if 1 / 2 < d then f + 1 else if even f then f else f + 1)"

text \<open>
  Rounding to binary64: 53 significant bits, smallest exponent \<open>-1022\<close> (below it the
  spacing of the subnormal numbers, \<open>2\<^sup>-\<^sup>1\<^sup>0\<^sup>7\<^sup>4\<close>).
\<close>

definition fl :: "rat \<Rightarrow> rat" where
  "fl x = (if x = 0 then 0 else
     let a = \<bar>x\<bar>; e = max (ilog2 a) (- 1022); q = pow2 (e - 52)
     in sgn x * of_int (rne (a / q)) * q)"

definition isInteger :: "rat \<Rightarrow> bool" where
  "isInteger x = (of_int \<lfloor>x\<rfloor> = x)"

text \<open>
  \<open>String(x)\<close> and \<open>`${x}`\<close> for a number. On the safe integers the result is the decimal
  numeral. On every other double ECMAScript prints the shortest digit string that reads
  back as \<open>x\<close>; that conversion is the parameter \<open>S\<close> of the model, threaded through every
  function that prints a number.
\<close>

definition numToString :: "(rat \<Rightarrow> jsstring) \<Rightarrow> rat \<Rightarrow> jsstring" where
  "numToString S x =
     (if isInteger x \<and> \<bar>x\<bar> \<le> 2 ^ 53
      then (if x < 0 then js ''-'' else []) @ String_nat (nat \<lfloor>\<bar>x\<bar>\<rfloor>)
      else S x)"

text \<open>\<open>x.toFixed(f)\<close> as ECMAScript defines it on the exact value of \<open>x\<close>.\<close>

definition toFixed :: "(rat \<Rightarrow> jsstring) \<Rightarrow> rat \<Rightarrow> nat \<Rightarrow> jsstring" where
  "toFixed S x f =
     (if x < 0 then js ''-'' else []) @
     (if 10 ^ 21 \<le> \<bar>x\<bar> then numToString S \<bar>x\<bar>
      else
        let m = String_nat (nat \<lfloor>\<bar>x\<bar> * 10 ^ f + 1 / 2\<rfloor>)
        in if f = 0 then m
           else let p = replicate (f + 1 - length m) 0x30 @ m
                in take (length p - f) p @ js ''.'' @ drop (length p - f) p)"

subsection \<open>Text metrics\<close>

definition WIDTHS :: "nat list" where
  "WIDTHS = [
  278, 278, 355, 556, 556, 889, 667, 191, 333, 333, 389, 584, 278, 333, 278, 278,
  556, 556, 556, 556, 556, 556, 556, 556, 556, 556, 278, 278, 584, 584, 584, 556,
  1015, 667, 667, 722, 722, 667, 611, 778, 722, 278, 500, 667, 556, 833, 722, 778,
  667, 778, 722, 667, 611, 722, 667, 944, 667, 667, 611, 278, 278, 278, 469, 556,
  333, 556, 556, 500, 556, 556, 278, 556, 556, 222, 222, 500, 222, 833, 556, 556,
  556, 556, 333, 500, 278, 556, 500, 722, 500, 500, 500, 334, 260, 334, 584]"

definition glyphWidth :: "jschar \<Rightarrow> nat" where
  "glyphWidth c = (let code = unat c in
     if code \<ge> 32 \<and> code \<le> 126 then WIDTHS ! (code - 32) else 556)"

text \<open>The loop of \<open>measureText\<close>: \<open>width += ...\<close> for each code unit, from \<open>width = 0\<close>.\<close>

definition sumWidths :: "jsstring \<Rightarrow> rat" where
  "sumWidths str = foldl (\<lambda>width c. fl (width + of_nat (glyphWidth c))) 0 str"

definition measureText :: "jsstring \<Rightarrow> rat \<Rightarrow> rat" where
  "measureText str sz = fl (fl (sumWidths str * sz) / 1000)"

subsection \<open>Colors\<close>

definition hexDigit :: "jschar \<Rightarrow> nat option" where
  "hexDigit c = (let n = unat c in
     if 48 \<le> n \<and> n \<le> 57 then Some (n - 48)
     else if 65 \<le> n \<and> n \<le> 70 then Some (n - 55)
     else if 97 \<le> n \<and> n \<le> 102 then Some (n - 87)
     else None)"

text \<open>
  \<open>parseColor\<close>: the argument is \<open>None\<close> for \<open>undefined\<close>. The result is \<open>None\<close> for
  \<open>null\<close>. After the test \<open>/^[0-9a-fA-F]{6}$/\<close> the three \<open>parseInt(.., 16)\<close> read two hex
  digits each.
\<close>

definition parseColor :: "jsstring option \<Rightarrow> (rat \<times> rat \<times> rat) option" where
  "parseColor hex0 =
     (case hex0 of None \<Rightarrow> None
      | Some hex \<Rightarrow>
          if hex = [] \<or> hex = js ''none'' then None
          else
            let h1 = (if take 1 hex = js ''#'' then drop 1 hex else hex);
                h2 = (if length h1 = 3
                      then [h1 ! 0, h1 ! 0, h1 ! 1, h1 ! 1, h1 ! 2, h1 ! 2] else h1)
            in if length h2 = 6 \<and> (\<forall>c \<in> set h2. hexDigit c \<noteq> None)
               then let v = (\<lambda>i. of_nat (the (hexDigit (h2 ! i)) * 16 + the (hexDigit (h2 ! (i + 1)))))
                    in Some (fl (v 0 / 255), fl (v 2 / 255), fl (v 4 / 255))
               else None)"

definition colorOp :: "(rat \<Rightarrow> jsstring) \<Rightarrow> (rat \<times> rat \<times> rat) option \<Rightarrow> jsstring \<Rightarrow> jsstring" where
  "colorOp S rgb op =
     (case rgb of
        Some (r, g, b) \<Rightarrow>
          toFixed S r 3 @ js '' '' @ toFixed S g 3 @ js '' '' @ toFixed S b 3 @ js '' '' @ op
      | None \<Rightarrow> [])"

subsection \<open>The image header parser\<close>

datatype image_fault = MissingSOI | NoValidSOF

text \<open>
  The four \<open>throw new Error(...)\<close> of the engine. \<open>MalformedImage MissingSOI\<close> is
  \<open>'Invalid JPEG: missing SOI marker'\<close>, \<open>MalformedImage NoValidSOF\<close> is
  \<open>'Invalid JPEG: no valid SOF marker found'\<close>, \<open>NoPages\<close> is
  \<open>'PDF must have at least one page'\<close> and \<open>AlreadyBuilt\<close> is
  \<open>'build() can only be called once'\<close>.
\<close>

datatype error = MalformedImage image_fault | NoPages | AlreadyBuilt

record jpeg_info =
  width :: nat
  height :: nat
  colorSpace :: jsstring

text \<open>\<open>(hi << 8) | lo\<close> on two bytes.\<close>

definition be16 :: "byte \<Rightarrow> byte \<Rightarrow> nat" where
  "be16 hi lo = push_bit 8 (unat hi) OR unat lo"

definition colorSpaceOf :: "byte \<Rightarrow> jsstring" where
  "colorSpaceOf c =
     (if c = 1 then js ''/DeviceGray'' else if c = 4 then js ''/DeviceCMYK'' else js ''/DeviceRGB'')"

text \<open>
  The \<open>while\<close> loop of \<open>parseJpeg\<close>, from index \<open>i\<close>. The loop is left in five ways: by the
  \<open>return\<close>, by one of the three \<open>break\<close>s, or because its condition fails; the result says
  which. After any of the last four the function throws.
\<close>

datatype scan_exit =
    Found jpeg_info
  | BreakSOS
  | BreakShortFrame
  | BreakShortLength
  | LoopEnd

function scan :: "byte list \<Rightarrow> nat \<Rightarrow> scan_exit" where
  "scan bytes i =
     (if \<not> i + 1 < length bytes then LoopEnd
      else if bytes ! i \<noteq> 0xFF then scan bytes (i + 1)
      else if bytes ! (i + 1) = 0xDA then BreakSOS
      else if (bytes ! (i + 1) = 0xC0 \<or> bytes ! (i + 1) = 0xC2) \<and> i + 9 \<ge> length bytes
        then BreakShortFrame
      else if (bytes ! (i + 1) = 0xC0 \<or> bytes ! (i + 1) = 0xC2)
              \<and> be16 (bytes ! (i + 7)) (bytes ! (i + 8)) \<noteq> 0
              \<and> be16 (bytes ! (i + 5)) (bytes ! (i + 6)) \<noteq> 0
        then Found \<lparr>width = be16 (bytes ! (i + 7)) (bytes ! (i + 8)),
                    height = be16 (bytes ! (i + 5)) (bytes ! (i + 6)),
                    colorSpace = colorSpaceOf (bytes ! (i + 9))\<rparr>
      else if i + 3 \<ge> length bytes then BreakShortLength
      else scan bytes (i + 2 + be16 (bytes ! (i + 2)) (bytes ! (i + 3))))"
  by pat_completeness auto
termination
  by (relation "measure (\<lambda>(bytes, i). length bytes - i)") auto

declare scan.simps [simp del]

definition hasSOI :: "byte list \<Rightarrow> bool" where
  "hasSOI bytes = (\<not> (length bytes < 2 \<or> bytes ! 0 \<noteq> 0xFF \<or> bytes ! 1 \<noteq> 0xD8))"

definition parseJpeg :: "byte list \<Rightarrow> error + jpeg_info" where
  "parseJpeg bytes =
     (if \<not> hasSOI bytes then Inl (MalformedImage MissingSOI)
      else case scan bytes 2 of
             Found info \<Rightarrow> Inr info
           | _ \<Rightarrow> Inl (MalformedImage NoValidSOF))"

subsection \<open>The value serializer\<close>

text \<open>
  \<open>PDFValue\<close>. \<open>VUndefined\<close> is \<open>undefined\<close>, which an entry of a dictionary may hold; a
  dictionary lists its entries in insertion order, as \<open>Object.entries\<close> does for the keys
  the engine uses.
\<close>

datatype PDFValue =
    VNull
  | VUndefined
  | VBool bool
  | VNum rat
  | VStr jsstring
  | VArr "PDFValue list"
  | VRef nat
  | VObj "(jsstring \<times> PDFValue) list"

definition pdfString :: "jsstring \<Rightarrow> jsstring" where
  "pdfString str =
     [LPAREN] @
     replaceAll LF [BACKSLASH, 0x6E]
       (replaceAll CR [BACKSLASH, 0x72]
         (replaceAll RPAREN [BACKSLASH, RPAREN]
           (replaceAll LPAREN [BACKSLASH, LPAREN]
             (replaceAll BACKSLASH [BACKSLASH, BACKSLASH] str)))) @
     [RPAREN]"

text \<open>\<open>s.replace(/\.?0+$/, '')\<close>: the trailing zeros go, and a dot just before them.\<close>

definition stripZeros :: "jsstring \<Rightarrow> jsstring" where
  "stripZeros s =
     (let r = rev s; t = dropWhile (\<lambda>c. c = 0x30) r in
      if length t = length r then s
      else case t of [] \<Rightarrow> [] | c # t' \<Rightarrow> if c = 0x2E then rev t' else rev t)"

fun serialize :: "(rat \<Rightarrow> jsstring) \<Rightarrow> PDFValue \<Rightarrow> jsstring" where
  "serialize S VNull = js ''null''"
| "serialize S VUndefined = js ''null''"
| "serialize S (VBool b) = (if b then js ''true'' else js ''false'')"
| "serialize S (VNum x) = (if isInteger x then numToString S x else stripZeros (toFixed S x 4))"
| "serialize S (VStr s) =
     (if take 1 s = [SLASH] then s
      else if take 1 s = [LPAREN] then s
      else pdfString s)"
| "serialize S (VArr vs) = js ''['' @ join (js '' '') (map (serialize S) vs) @ js '']''"
| "serialize S (VRef i) = String_nat i @ js '' 0 R''"
| "serialize S (VObj kvs) =
     js ''<<\<newline>'' @
     join (js ''\<newline>'')
       (map (\<lambda>(k, v). js ''/'' @ k @ js '' '' @ serialize S v)
            (filter (\<lambda>(k, v). v \<noteq> VUndefined) kvs)) @
     js ''\<newline>>>''"

subsection \<open>The builder\<close>

record PDFObject =
  obj_id :: nat
  dict :: "(jsstring \<times> PDFValue) list"
  stream :: "byte list option"

text \<open>
  The state that the closures of \<open>pdf()\<close> share. \<open>pages\<close> holds the ids of the \<open>Ref\<close>s.
\<close>

record doc =
  objects :: "PDFObject list"
  pages :: "nat list"
  nextId :: nat
  built :: bool

definition pdf :: doc where
  "pdf = \<lparr>objects = [], pages = [], nextId = 1, built = False\<rparr>"

definition addObject :: "(jsstring \<times> PDFValue) list \<Rightarrow> byte list option \<Rightarrow> doc \<Rightarrow> nat \<times> doc" where
  "addObject dct streamBytes d =
     (nextId d,
      d\<lparr>objects := objects d @ [\<lparr>obj_id = nextId d, dict = dct, stream = streamBytes\<rparr>],
        nextId := nextId d + 1\<rparr>)"

text \<open>Reading and writing a property of a dictionary; a new key goes to the end.\<close>

definition getProp :: "jsstring \<Rightarrow> (jsstring \<times> PDFValue) list \<Rightarrow> PDFValue" where
  "getProp k kvs = (case map_of kvs k of None \<Rightarrow> VUndefined | Some v \<Rightarrow> v)"

fun setProp :: "jsstring \<Rightarrow> PDFValue \<Rightarrow> (jsstring \<times> PDFValue) list \<Rightarrow> (jsstring \<times> PDFValue) list" where
  "setProp k v [] = [(k, v)]"
| "setProp k v (p # ps) = (if fst p = k then (k, v) # ps else p # setProp k v ps)"

subsubsection \<open>The page context\<close>

datatype Align = AlignLeft | AlignCenter | AlignRight

text \<open>An absent option is \<open>None\<close>; \<open>boxWidth\<close> is the option \<open>width\<close>.\<close>

record TextOptions =
  align :: "Align option"
  boxWidth :: "rat option"
  color :: "jsstring option"

record LinkOptions =
  underline :: "jsstring option"

text \<open>
  A drawing callback is modelled by the calls it makes on the context, in order. It does not
  catch what \<open>image\<close> throws and does not call the builder itself.
\<close>

datatype call =
    CallText jsstring rat rat rat TextOptions
  | CallRect rat rat rat rat jsstring
  | CallLine rat rat rat rat jsstring "rat option"
  | CallImage "byte list" rat rat rat rat
  | CallLink jsstring rat rat rat rat LinkOptions

text \<open>The locals of one \<open>page\<close> call that the context closes over.\<close>

record pagelocals =
  ops :: "jsstring list"
  images :: "(jsstring \<times> nat) list"
  links :: "(jsstring \<times> rat list) list"
  imageCount :: nat

definition ctx_text ::
  "(rat \<Rightarrow> jsstring) \<Rightarrow> jsstring \<Rightarrow> rat \<Rightarrow> rat \<Rightarrow> rat \<Rightarrow> TextOptions \<Rightarrow> pagelocals \<Rightarrow> pagelocals" where
  "ctx_text S str x y sz opts p =
     (let al = (case align opts of None \<Rightarrow> AlignLeft | Some a \<Rightarrow> a);
          col = (case color opts of None \<Rightarrow> js ''#000000'' | Some c \<Rightarrow> c);
          tx = (case boxWidth opts of
                  None \<Rightarrow> x
                | Some bw \<Rightarrow>
                    if al = AlignLeft then x
                    else let tw = measureText str sz in
                         if al = AlignCenter then fl (x + fl (fl (bw - tw) / 2))
                         else fl (fl (x + bw) - tw));
          c0 = colorOp S (parseColor (Some col)) (js ''rg'');
          c = (if c0 = [] then js ''0.000 0.000 0.000 rg'' else c0)
      in p\<lparr>ops := ops p @
           [c, js ''BT'', js ''/F1 '' @ numToString S sz @ js '' Tf'',
            toFixed S tx 2 @ js '' '' @ toFixed S y 2 @ js '' Td'',
            pdfString str @ js '' Tj'', js ''ET'']\<rparr>)"

definition ctx_rect ::
  "(rat \<Rightarrow> jsstring) \<Rightarrow> rat \<Rightarrow> rat \<Rightarrow> rat \<Rightarrow> rat \<Rightarrow> jsstring \<Rightarrow> pagelocals \<Rightarrow> pagelocals" where
  "ctx_rect S x y w h fill p =
     (let c = colorOp S (parseColor (Some fill)) (js ''rg'') in
      if c \<noteq> [] then
        p\<lparr>ops := ops p @
           [c, toFixed S x 2 @ js '' '' @ toFixed S y 2 @ js '' '' @ toFixed S w 2 @ js '' ''
               @ toFixed S h 2 @ js '' re'', js ''f'']\<rparr>
      else p)"

definition ctx_line ::
  "(rat \<Rightarrow> jsstring) \<Rightarrow> rat \<Rightarrow> rat \<Rightarrow> rat \<Rightarrow> rat \<Rightarrow> jsstring \<Rightarrow> rat option \<Rightarrow> pagelocals \<Rightarrow> pagelocals" where
  "ctx_line S x1 y1 x2 y2 stroke lineWidth0 p =
     (let lineWidth = (case lineWidth0 of None \<Rightarrow> 1 | Some l \<Rightarrow> l);
          c = colorOp S (parseColor (Some stroke)) (js ''RG'') in
      if c \<noteq> [] then
        p\<lparr>ops := ops p @
           [toFixed S lineWidth 2 @ js '' w'', c,
            toFixed S x1 2 @ js '' '' @ toFixed S y1 2 @ js '' m'',
            toFixed S x2 2 @ js '' '' @ toFixed S y2 2 @ js '' l'', js ''S'']\<rparr>
      else p)"

text \<open>\<open>image\<close> is the one call that can throw, and the one that allocates an object.\<close>

definition imageDict :: "jpeg_info \<Rightarrow> nat \<Rightarrow> (jsstring \<times> PDFValue) list" where
  "imageDict info len =
     [(js ''Type'', VStr (js ''/XObject'')), (js ''Subtype'', VStr (js ''/Image'')),
      (js ''Width'', VNum (of_nat (width info))), (js ''Height'', VNum (of_nat (height info))),
      (js ''ColorSpace'', VStr (colorSpace info)), (js ''BitsPerComponent'', VNum 8),
      (js ''Filter'', VStr (js ''/DCTDecode'')), (js ''Length'', VNum (of_nat len))]"

definition ctx_image ::
  "(rat \<Rightarrow> jsstring) \<Rightarrow> byte list \<Rightarrow> rat \<Rightarrow> rat \<Rightarrow> rat \<Rightarrow> rat \<Rightarrow> doc \<times> pagelocals
     \<Rightarrow> error + doc \<times> pagelocals" where
  "ctx_image S jpegBytes x y w h st =
     (case parseJpeg jpegBytes of
        Inl e \<Rightarrow> Inl e
      | Inr info \<Rightarrow>
          let (d, p) = st;
              imgName = js ''/Im'' @ String_nat (imageCount p);
              (imgRef, d') = addObject (imageDict info (length jpegBytes)) (Some jpegBytes) d
          in Inr (d', p\<lparr>imageCount := imageCount p + 1,
                         images := images p @ [(imgName, imgRef)],
                         ops := ops p @
                           [js ''q'',
                            toFixed S w 2 @ js '' 0 0 '' @ toFixed S h 2 @ js '' '' @ toFixed S x 2
                              @ js '' '' @ toFixed S y 2 @ js '' cm'',
                            imgName @ js '' Do'', js ''Q'']\<rparr>))"

definition ctx_link ::
  "(rat \<Rightarrow> jsstring) \<Rightarrow> jsstring \<Rightarrow> rat \<Rightarrow> rat \<Rightarrow> rat \<Rightarrow> rat \<Rightarrow> LinkOptions \<Rightarrow> pagelocals \<Rightarrow> pagelocals" where
  "ctx_link S url x y w h opts p =
     (let p1 = p\<lparr>links := links p @ [(url, [x, y, fl (x + w), fl (y + h)])]\<rparr> in
      case underline opts of
        None \<Rightarrow> p1
      | Some u \<Rightarrow>
          if u = [] then p1
          else let c = colorOp S (parseColor (Some u)) (js ''RG'') in
               if c \<noteq> [] then
                 p1\<lparr>ops := ops p1 @
                    [js ''0.75 w'', c,
                     toFixed S x 2 @ js '' '' @ toFixed S (fl (y + 2)) 2 @ js '' m'',
                     toFixed S (fl (x + w)) 2 @ js '' '' @ toFixed S (fl (y + 2)) 2 @ js '' l'',
                     js ''S'']\<rparr>
               else p1)"

fun perform :: "(rat \<Rightarrow> jsstring) \<Rightarrow> call \<Rightarrow> doc \<times> pagelocals \<Rightarrow> error + doc \<times> pagelocals" where
  "perform S (CallText str x y sz opts) (d, p) = Inr (d, ctx_text S str x y sz opts p)"
| "perform S (CallRect x y w h fill) (d, p) = Inr (d, ctx_rect S x y w h fill p)"
| "perform S (CallLine x1 y1 x2 y2 stroke lw) (d, p) = Inr (d, ctx_line S x1 y1 x2 y2 stroke lw p)"
| "perform S (CallImage b x y w h) (d, p) = ctx_image S b x y w h (d, p)"
| "perform S (CallLink url x y w h opts) (d, p) = Inr (d, ctx_link S url x y w h opts p)"

text \<open>
  \<open>fn(ctx)\<close>: the calls in order. A throw ends the callback, and what the earlier calls did
  to the builder stays.
\<close>

fun runCallback ::
  "(rat \<Rightarrow> jsstring) \<Rightarrow> call list \<Rightarrow> doc \<times> pagelocals \<Rightarrow> error option \<times> doc \<times> pagelocals" where
  "runCallback S [] st = (None, st)"
| "runCallback S (c # cs) st =
     (case perform S c st of
        Inl e \<Rightarrow> (Some e, st)
      | Inr st' \<Rightarrow> runCallback S cs st')"

subsubsection \<open>\<open>page\<close>\<close>

text \<open>The two overloads: \<open>page(fn)\<close> and \<open>page(width, height, fn)\<close>.\<close>

datatype page_args = PageFn "call list" | PageSized rat rat "call list"

definition annotDict :: "jsstring \<times> rat list \<Rightarrow> (jsstring \<times> PDFValue) list" where
  "annotDict lnk =
     [(js ''Type'', VStr (js ''/Annot'')), (js ''Subtype'', VStr (js ''/Link'')),
      (js ''Rect'', VArr (map VNum (snd lnk))), (js ''Border'', VArr [VNum 0, VNum 0, VNum 0]),
      (js ''A'', VObj [(js ''Type'', VStr (js ''/Action'')), (js ''S'', VStr (js ''/URI'')),
                       (js ''URI'', VStr (fst lnk))])]"

text \<open>\<open>links.map(lnk => addObject(...))\<close>.\<close>

fun addAnnots :: "(jsstring \<times> rat list) list \<Rightarrow> doc \<Rightarrow> nat list \<times> doc" where
  "addAnnots [] d = ([], d)"
| "addAnnots (lnk # ls) d =
     (let (r, d1) = addObject (annotDict lnk) None d; (rs, d2) = addAnnots ls d1
      in (r # rs, d2))"

definition pageDict ::
  "rat \<Rightarrow> rat \<Rightarrow> nat \<Rightarrow> (jsstring \<times> PDFValue) list \<Rightarrow> nat list \<Rightarrow> (jsstring \<times> PDFValue) list" where
  "pageDict w h contentRef xobjects annots =
     [(js ''Type'', VStr (js ''/Page'')), (js ''Parent'', VNull),
      (js ''MediaBox'', VArr [VNum 0, VNum 0, VNum w, VNum h]),
      (js ''Contents'', VRef contentRef),
      (js ''Resources'',
         VObj [(js ''Font'', VObj [(js ''F1'', VNull)]),
               (js ''XObject'', if length xobjects > 0 then VObj xobjects else VUndefined)]),
      (js ''Annots'', if length annots > 0 then VArr (map VRef annots) else VUndefined)]"

definition page :: "(rat \<Rightarrow> jsstring) \<Rightarrow> page_args \<Rightarrow> doc \<Rightarrow> (error + unit) \<times> doc" where
  "page S args d =
     (let (w, h, fn) = (case args of PageFn f \<Rightarrow> (612, 792, f) | PageSized w h f \<Rightarrow> (w, h, f))
      in case runCallback S fn (d, \<lparr>ops = [], images = [], links = [], imageCount = 0\<rparr>) of
           (Some e, d1, p) \<Rightarrow> (Inl e, d1)
         | (None, d1, p) \<Rightarrow>
             let content = join [LF] (ops p);
                 contentBytes = encode content;
                 (contentRef, d2) =
                    addObject [(js ''Length'', VNum (of_nat (length contentBytes)))]
                              (Some contentBytes) d1;
                 xobjects = foldl (\<lambda>xo img. setProp (drop 1 (fst img)) (VRef (snd img)) xo)
                                  [] (images p);
                 (annots, d3) = addAnnots (links p) d2;
                 (pageRef, d4) = addObject (pageDict w h contentRef xobjects annots) None d3
             in (Inr (), d4\<lparr>pages := pages d4 @ [pageRef]\<rparr>))"

subsubsection \<open>\<open>build\<close>\<close>

text \<open>
  The loop that fills in \<open>Parent\<close> and \<open>Resources.Font.F1\<close> of every \<open>/Page\<close> object. Every
  such dictionary was made by \<open>page\<close>, so \<open>Resources\<close> and \<open>Font\<close> are dictionaries; on any
  other shape the model leaves the entry as it is.
\<close>

definition backfill :: "nat \<Rightarrow> nat \<Rightarrow> PDFObject \<Rightarrow> PDFObject" where
  "backfill pagesRef fontRef obj =
     (if getProp (js ''Type'') (dict obj) = VStr (js ''/Page'') then
        let d1 = setProp (js ''Parent'') (VRef pagesRef) (dict obj) in
        case getProp (js ''Resources'') d1 of
          VObj res \<Rightarrow>
            (case getProp (js ''Font'') res of
               VObj font \<Rightarrow>
                 obj\<lparr>dict := setProp (js ''Resources'')
                   (VObj (setProp (js ''Font'') (VObj (setProp (js ''F1'') (VRef fontRef) font)) res))
                   d1\<rparr>
             | _ \<Rightarrow> obj\<lparr>dict := d1\<rparr>)
        | _ \<Rightarrow> obj\<lparr>dict := d1\<rparr>
      else obj)"

text \<open>The locals \<open>chunks\<close>, \<open>offsets\<close> and \<open>byteOffset\<close> of \<open>build\<close>, and its closure \<open>push\<close>.\<close>

record writer =
  chunks :: "byte list list"
  offsets :: "nat \<rightharpoonup> nat"
  byteOffset :: nat

definition push :: "byte list \<Rightarrow> writer \<Rightarrow> writer" where
  "push data w = w\<lparr>chunks := chunks w @ [data], byteOffset := byteOffset w + length data\<rparr>"

definition objHead :: "(rat \<Rightarrow> jsstring) \<Rightarrow> PDFObject \<Rightarrow> jsstring" where
  "objHead S obj =
     String_nat (obj_id obj) @ js '' 0 obj\<newline>'' @ serialize S (VObj (dict obj)) @ js ''\<newline>''"

definition writeObject :: "(rat \<Rightarrow> jsstring) \<Rightarrow> PDFObject \<Rightarrow> writer \<Rightarrow> writer" where
  "writeObject S obj w =
     (let w1 = w\<lparr>offsets := (offsets w)(obj_id obj \<mapsto> byteOffset w)\<rparr> in
      case stream obj of
        Some bytes \<Rightarrow>
          push (encode (js ''\<newline>endstream\<newline>endobj\<newline>''))
            (push bytes (push (encode (objHead S obj @ js ''stream\<newline>'')) w1))
      | None \<Rightarrow> push (encode (objHead S obj @ js ''endobj\<newline>'')) w1)"

definition fileHeader :: jsstring where
  "fileHeader = js ''%PDF-1.4\<newline>%'' @ [0xFF, 0xFF, 0xFF, 0xFF] @ js ''\<newline>''"

text \<open>\<open>String(offsets[i])\<close>: an index never written reads as \<open>undefined\<close>.\<close>

definition offsetString :: "nat option \<Rightarrow> jsstring" where
  "offsetString off = (case off of None \<Rightarrow> js ''undefined'' | Some n \<Rightarrow> String_nat n)"

definition xrefEntry :: "nat option \<Rightarrow> jsstring" where
  "xrefEntry off = padStart 10 (offsetString off) @ js '' 00000 n \<newline>''"

definition xrefText :: "nat \<Rightarrow> (nat \<rightharpoonup> nat) \<Rightarrow> jsstring" where
  "xrefText n offs =
     js ''xref\<newline>0 '' @ String_nat (n + 1) @ js ''\<newline>0000000000 65535 f \<newline>'' @
     concat (map (\<lambda>i. xrefEntry (offs i)) [1..<n + 1])"

definition trailerText :: "(rat \<Rightarrow> jsstring) \<Rightarrow> nat \<Rightarrow> nat \<Rightarrow> jsstring" where
  "trailerText S n catalogRef =
     js ''trailer\<newline>'' @
     serialize S (VObj [(js ''Size'', VNum (of_nat (n + 1))), (js ''Root'', VRef catalogRef)]) @
     js ''\<newline>''"

definition startxrefText :: "nat \<Rightarrow> jsstring" where
  "startxrefText xrefOffset = js ''startxref\<newline>'' @ String_nat xrefOffset @ js ''\<newline>%%EOF\<newline>''"

text \<open>The state of \<open>build\<close> once the font, the page tree and the catalog are allocated.\<close>

definition finish :: "doc \<Rightarrow> nat \<times> doc" where
  "finish d =
     (let (fontRef, d1) =
            addObject [(js ''Type'', VStr (js ''/Font'')), (js ''Subtype'', VStr (js ''/Type1'')),
                       (js ''BaseFont'', VStr (js ''/Helvetica''))] None (d\<lparr>built := True\<rparr>);
          (pagesRef, d2) =
            addObject [(js ''Type'', VStr (js ''/Pages'')), (js ''Kids'', VArr (map VRef (pages d1))),
                       (js ''Count'', VNum (of_nat (length (pages d1))))] None d1;
          d3 = d2\<lparr>objects := map (backfill pagesRef fontRef) (objects d2)\<rparr>;
          (catalogRef, d4) =
            addObject [(js ''Type'', VStr (js ''/Catalog'')), (js ''Pages'', VRef pagesRef)] None d3
      in (catalogRef, d4))"

text \<open>The writer after the header and every object.\<close>

definition written :: "(rat \<Rightarrow> jsstring) \<Rightarrow> PDFObject list \<Rightarrow> writer" where
  "written S objs =
     foldl (\<lambda>w obj. writeObject S obj w) (push (encode fileHeader) \<lparr>chunks = [], offsets = Map.empty, byteOffset = 0\<rparr>) objs"

definition build :: "(rat \<Rightarrow> jsstring) \<Rightarrow> doc \<Rightarrow> (error + byte list) \<times> doc" where
  "build S d =
     (if pages d = [] then (Inl NoPages, d)
      else if built d then (Inl AlreadyBuilt, d)
      else
        let (catalogRef, d4) = finish d;
            w1 = written S (objects d4);
            xrefOffset = byteOffset w1;
            n = length (objects d4);
            w2 = push (encode (startxrefText xrefOffset))
                   (push (encode (trailerText S n catalogRef))
                     (push (encode (xrefText n (offsets w1))) w1))
        in (Inr (concat (chunks w2)), d4))"

subsection \<open>The layout of \<open>markdown\<close>\<close>

text \<open>\<open>text.split(' ')\<close>.\<close>

fun split :: "jschar \<Rightarrow> jsstring \<Rightarrow> jsstring list" where
  "split sep [] = [[]]"
| "split sep (c # s) =
     (if c = sep then [] # split sep s
      else case split sep s of [] \<Rightarrow> [[c]] | w # ws \<Rightarrow> (c # w) # ws)"

text \<open>\<open>for (const ch of word)\<close> steps through code points: a surrogate pair is one \<open>ch\<close>.\<close>

fun codePoints :: "jsstring \<Rightarrow> jsstring list" where
  "codePoints [] = []"
| "codePoints [c] = [[c]]"
| "codePoints (c # d # s) =
     (if isHigh c \<and> isLow d then [c, d] # codePoints s else [c] # codePoints (d # s))"

text \<open>One round of the inner loop of \<open>wrap\<close>, on the locals \<open>lines\<close> and \<open>chunk\<close>.\<close>

definition chunkStep :: "rat \<Rightarrow> rat \<Rightarrow> jsstring list \<times> jsstring \<Rightarrow> jsstring \<Rightarrow> jsstring list \<times> jsstring" where
  "chunkStep sz maxW st ch =
     (let (lines, chunk) = st in
      if measureText (chunk @ ch) sz > maxW \<and> chunk \<noteq> [] then (lines @ [chunk], ch)
      else (lines, chunk @ ch))"

text \<open>One round of the outer loop, on the locals \<open>lines\<close> and \<open>line\<close>.\<close>

definition wordStep :: "rat \<Rightarrow> rat \<Rightarrow> jsstring list \<times> jsstring \<Rightarrow> jsstring \<Rightarrow> jsstring list \<times> jsstring" where
  "wordStep sz maxW st word =
     (let (lines, line) = st in
      if measureText word sz > maxW then
        foldl (chunkStep sz maxW) (if line \<noteq> [] then lines @ [line] else lines, []) (codePoints word)
      else
        let test = (if line \<noteq> [] then line @ js '' '' @ word else word) in
        if measureText test sz \<le> maxW then (lines, test)
        else (if line \<noteq> [] then lines @ [line] else lines, word))"

definition wrap :: "jsstring \<Rightarrow> rat \<Rightarrow> rat \<Rightarrow> jsstring list" where
  "wrap text sz maxW =
     (let (lines, line) = foldl (wordStep sz maxW) ([], []) (split 0x20 text);
          lines' = (if line \<noteq> [] then lines @ [line] else lines)
      in if length lines' > 0 then lines' else [[]])"

text \<open>
  The fields of \<open>Item\<close>; \<open>itemText\<close>, \<open>itemSize\<close>, \<open>isRule\<close> and \<open>itemColor\<close> are \<open>text\<close>,
  \<open>size\<close>, \<open>rule\<close> and \<open>color\<close>.
\<close>

record Item =
  itemText :: jsstring
  itemSize :: rat
  indent :: rat
  spaceBefore :: rat
  spaceAfter :: rat
  isRule :: bool
  itemColor :: "jsstring option"








text \<open>
  The locals of the pagination loop: \<open>donePages\<close>, \<open>cursor\<close>, \<open>curItems\<close> and \<open>curYs\<close> are
  \<open>pages\<close>, \<open>y\<close>, \<open>pg\<close> and \<open>ys\<close>.
\<close>

record layout =
  donePages :: "(Item list \<times> rat list) list"
  cursor :: rat
  curItems :: "Item list"
  curYs :: "rat list"

definition needed :: "Item \<Rightarrow> rat" where
  "needed item = fl (fl (spaceBefore item + itemSize item) + spaceAfter item)"

definition placeItem :: "rat \<Rightarrow> rat \<Rightarrow> layout \<Rightarrow> Item \<Rightarrow> layout" where
  "placeItem H M l item =
     (let l1 = (if fl (cursor l - needed item) < M
                then \<lparr>donePages = (if length (curItems l) > 0
                                     then donePages l @ [(curItems l, curYs l)] else donePages l),
                      cursor = fl (H - M), curItems = [], curYs = []\<rparr>
                else l);
          y1 = fl (cursor l1 - spaceBefore item)
      in l1\<lparr>curYs := curYs l1 @ [y1], curItems := curItems l1 @ [item],
            cursor := fl (y1 - fl (itemSize item + spaceAfter item))\<rparr>)"

definition paginate :: "rat \<Rightarrow> rat \<Rightarrow> Item list \<Rightarrow> (Item list \<times> rat list) list" where
  "paginate H M items =
     (let l = foldl (placeItem H M)
                \<lparr>donePages = [], cursor = fl (H - M), curItems = [], curYs = []\<rparr> items;
          pages1 = (if length (curItems l) > 0
                    then donePages l @ [(curItems l, curYs l)] else donePages l)
      in if length pages1 = 0 then [([], [])] else pages1)"

subsection \<open>Auxiliary notions for the properties\<close>

text \<open>The builder after a sequence of \<open>page\<close> calls, whatever their outcomes.\<close>

definition afterPages :: "(rat \<Rightarrow> jsstring) \<Rightarrow> page_args list \<Rightarrow> doc \<Rightarrow> doc" where
  "afterPages S as d = foldl (\<lambda>d a. snd (page S a d)) d as"

text \<open>
  The escaping of a text string as the specification words it, code unit by code unit:
  backslash, the two parentheses, carriage return and line feed are escaped, everything
  else passes through.
\<close>

definition escapeChar :: "jschar \<Rightarrow> jsstring" where
  "escapeChar c =
     (if c = BACKSLASH then [BACKSLASH, BACKSLASH]
      else if c = LPAREN then [BACKSLASH, LPAREN]
      else if c = RPAREN then [BACKSLASH, RPAREN]
      else if c = CR then [BACKSLASH, 0x72]
      else if c = LF then [BACKSLASH, 0x6E]
      else [c])"

definition escaped :: "jsstring \<Rightarrow> jsstring" where
  "escaped s = concat (map escapeChar s)"

text \<open>
  The frame header as the specification words it: at index \<open>i\<close> stands the marker prefix,
  then the baseline or the progressive frame marker, and the nine bytes after the prefix
  are there. \<open>frameInfo\<close> is what the specification reads from it: the big-endian height
  and width and the color space of the component count.
\<close>

definition isFrameMarker :: "byte \<Rightarrow> bool" where
  "isFrameMarker m = (m = 0xC0 \<or> m = 0xC2)"

definition frameAt :: "byte list \<Rightarrow> nat \<Rightarrow> bool" where
  "frameAt bytes i = (i + 9 < length bytes \<and> bytes ! i = 0xFF \<and> isFrameMarker (bytes ! (i + 1)))"

definition frameInfo :: "byte list \<Rightarrow> nat \<Rightarrow> jpeg_info" where
  "frameInfo bytes i =
     \<lparr>width = 256 * unat (bytes ! (i + 7)) + unat (bytes ! (i + 8)),
      height = 256 * unat (bytes ! (i + 5)) + unat (bytes ! (i + 6)),
      colorSpace = (if bytes ! (i + 9) = 1 then js ''/DeviceGray''
                    else if bytes ! (i + 9) = 4 then js ''/DeviceCMYK'' else js ''/DeviceRGB'')\<rparr>"

text \<open>The \<open>width\<close> and \<open>height\<close> that \<open>parseJpeg\<close> computes at index \<open>i\<close>, and its test on them.\<close>

definition frameWidth :: "byte list \<Rightarrow> nat \<Rightarrow> nat" where
  "frameWidth bytes i = be16 (bytes ! (i + 7)) (bytes ! (i + 8))"

definition frameHeight :: "byte list \<Rightarrow> nat \<Rightarrow> nat" where
  "frameHeight bytes i = be16 (bytes ! (i + 5)) (bytes ! (i + 6))"

definition usableFrameAt :: "byte list \<Rightarrow> nat \<Rightarrow> bool" where
  "usableFrameAt bytes i = (frameAt bytes i \<and> frameWidth bytes i \<noteq> 0 \<and> frameHeight bytes i \<noteq> 0)"

text \<open>
  The indices at which the loop of \<open>parseJpeg\<close> stands at the start of a round: it starts
  at 2, steps over a byte that is not the marker prefix, and jumps over a segment by its
  length field. The segment it jumps over is one with another marker, or a frame header
  whose width or height is zero.
\<close>

inductive reach :: "byte list \<Rightarrow> nat \<Rightarrow> bool" for bytes :: "byte list" where
  start: "reach bytes 2"
| skipByte: "reach bytes i \<Longrightarrow> i + 1 < length bytes \<Longrightarrow> bytes ! i \<noteq> 0xFF \<Longrightarrow> reach bytes (i + 1)"
| skipSegment:
    "reach bytes i \<Longrightarrow> i + 3 < length bytes \<Longrightarrow> bytes ! i = 0xFF \<Longrightarrow> bytes ! (i + 1) \<noteq> 0xDA \<Longrightarrow>
     \<not> isFrameMarker (bytes ! (i + 1)) \<or> (frameAt bytes i \<and> \<not> usableFrameAt bytes i) \<Longrightarrow>
     reach bytes (i + 2 + be16 (bytes ! (i + 2)) (bytes ! (i + 3)))"

code_pred reach .

text \<open>
  The ways the scan ends without a result at index \<open>k\<close>: the start-of-scan marker stands
  there; fewer than two bytes are left; a frame marker stands there and the bytes end
  within its header; another marker stands there and the bytes end within its length field.
\<close>

definition sosAt :: "byte list \<Rightarrow> nat \<Rightarrow> bool" where
  "sosAt bytes k = (k + 1 < length bytes \<and> bytes ! k = 0xFF \<and> bytes ! (k + 1) = 0xDA)"

definition endsAt :: "byte list \<Rightarrow> nat \<Rightarrow> bool" where
  "endsAt bytes k = (\<not> k + 1 < length bytes)"

definition cutFrameAt :: "byte list \<Rightarrow> nat \<Rightarrow> bool" where
  "cutFrameAt bytes k =
     (k + 1 < length bytes \<and> bytes ! k = 0xFF \<and> isFrameMarker (bytes ! (k + 1)) \<and> k + 9 \<ge> length bytes)"

definition cutSegmentAt :: "byte list \<Rightarrow> nat \<Rightarrow> bool" where
  "cutSegmentAt bytes k =
     (k + 1 < length bytes \<and> bytes ! k = 0xFF \<and> bytes ! (k + 1) \<noteq> 0xDA
      \<and> \<not> isFrameMarker (bytes ! (k + 1)) \<and> k + 3 \<ge> length bytes)"

definition stopsAt :: "byte list \<Rightarrow> nat \<Rightarrow> bool" where
  "stopsAt bytes k = (sosAt bytes k \<or> endsAt bytes k \<or> cutFrameAt bytes k \<or> cutSegmentAt bytes k)"

text \<open>
  Three byte streams. The first holds a baseline frame header of height 0 and then the
  start-of-scan marker; the second a progressive frame header of width 0 and nothing
  more; the third an APP0 segment and a baseline frame header of 3 by 2 pixels with four
  components.
\<close>

definition zeroHeightThenSOS :: "byte list" where
  "zeroHeightThenSOS =
     [0xFF, 0xD8, 0xFF, 0xC0, 0x00, 0x0B, 0x08, 0x00, 0x00, 0x00, 0x10, 0x03, 0x01, 0x00, 0x00,
      0xFF, 0xDA, 0x00, 0x00]"

definition zeroWidthFrame :: "byte list" where
  "zeroWidthFrame =
     [0xFF, 0xD8, 0xFF, 0xC2, 0x00, 0x0B, 0x08, 0x00, 0x10, 0x00, 0x00, 0x03, 0x01, 0x00, 0x00]"

definition cmykImage :: "byte list" where
  "cmykImage =
     [0xFF, 0xD8, 0xFF, 0xE0, 0x00, 0x04, 0x00, 0x00,
      0xFF, 0xC0, 0x00, 0x0B, 0x08, 0x00, 0x02, 0x00, 0x03, 0x04]"

text \<open>A line that is one character: one code point, as the inner loop of \<open>wrap\<close> takes them.\<close>

definition singleChar :: "jsstring \<Rightarrow> bool" where
  "singleChar l = (length (codePoints l) = 1)"

text \<open>The invariant of the two loops of \<open>wrap\<close> on \<open>lines\<close> and on \<open>line\<close> or \<open>chunk\<close>.\<close>

definition fits :: "rat \<Rightarrow> rat \<Rightarrow> jsstring \<Rightarrow> bool" where
  "fits sz maxW l = (measureText l sz \<le> maxW \<or> singleChar l)"

definition wrapInv :: "rat \<Rightarrow> rat \<Rightarrow> jsstring list \<times> jsstring \<Rightarrow> bool" where
  "wrapInv sz maxW st = ((\<forall>l \<in> set (fst st). fits sz maxW l) \<and> (snd st = [] \<or> fits sz maxW (snd st)))"

text \<open>The sum of the glyph widths of a string, as a natural number.\<close>

definition glyphSum :: "jsstring \<Rightarrow> nat" where
  "glyphSum s = sum_list (map glyphWidth s)"

text \<open>
  Notions for the pagination loop. \<open>overflows\<close> is its test \<open>y - needed < M\<close> at the cursor
  \<open>y0\<close>; \<open>afterItem\<close> is the cursor after the two assignments \<open>y -= ...\<close> that place an item;
  \<open>cursorAt H M p j\<close> is the cursor on a page with the items \<open>p\<close>, started at the top
  \<open>H - M\<close>, before its item \<open>j\<close> (after its last item when \<open>j\<close> is the length of \<open>p\<close>).
\<close>

definition overflows :: "rat \<Rightarrow> rat \<Rightarrow> Item \<Rightarrow> bool" where
  "overflows M y0 item = (fl (y0 - needed item) < M)"

definition afterItem :: "rat \<Rightarrow> Item \<Rightarrow> rat" where
  "afterItem y0 item = fl (fl (y0 - spaceBefore item) - fl (itemSize item + spaceAfter item))"

definition cursorAt :: "rat \<Rightarrow> rat \<Rightarrow> Item list \<Rightarrow> nat \<Rightarrow> rat" where
  "cursorAt H M p j = foldl afterItem (fl (H - M)) (take j p)"







text \<open>
  An item whose metrics 0.1, 9.6 and 0.3 are not whole numbers; \<open>markdown\<close> makes no such
  item.
\<close>

definition looseItem :: Item where
  "looseItem =
     \<lparr>itemText = [], itemSize = fl (48 / 5), indent = 0, spaceBefore = fl (1 / 10),
      spaceAfter = fl (3 / 10), isRule = False, itemColor = None\<rparr>"

text \<open>
  The builder's ids are in order when object \<open>k\<close> of the list has id \<open>k\<close> and the counter
  stands one past the last. \<open>pdf\<close> starts so and \<open>addObject\<close> keeps it so.
\<close>

definition idsInOrder :: "doc \<Rightarrow> bool" where
  "idsInOrder d =
     (map obj_id (objects d) = [1..<Suc (length (objects d))] \<and> nextId d = Suc (length (objects d)))"

text \<open>
  The bytes of the line \<open>i 0 obj\<close> that opens object \<open>i\<close>, all the bytes \<open>build\<close> writes for an
  object, and what it means that the opening line of object \<open>i\<close> stands at offset \<open>off\<close>
  of the bytes \<open>out\<close>.
\<close>

definition objHeader :: "nat \<Rightarrow> byte list" where
  "objHeader i = encode (String_nat i @ js '' 0 obj\<newline>'')"

definition objBytes :: "(rat \<Rightarrow> jsstring) \<Rightarrow> PDFObject \<Rightarrow> byte list" where
  "objBytes S obj =
     (case stream obj of
        Some bytes \<Rightarrow> encode (objHead S obj @ js ''stream\<newline>'') @ bytes
                       @ encode (js ''\<newline>endstream\<newline>endobj\<newline>'')
      | None \<Rightarrow> encode (objHead S obj @ js ''endobj\<newline>''))"

definition placed :: "byte list \<Rightarrow> nat \<Rightarrow> nat \<Rightarrow> bool" where
  "placed out i off =
     (off + length (objHeader i) \<le> length out \<and> take (length (objHeader i)) (drop off out) = objHeader i)"

text \<open>A code unit that is not a surrogate is encoded on its own.\<close>

definition plain :: "jschar \<Rightarrow> bool" where
  "plain c = (\<not> isHigh c \<and> \<not> isLow c)"

text \<open>Reading a string of decimal digits as a number.\<close>

definition isDigit :: "jschar \<Rightarrow> bool" where
  "isDigit c = (48 \<le> unat c \<and> unat c \<le> 57)"

definition decimalValue :: "jsstring \<Rightarrow> nat" where
  "decimalValue s = foldl (\<lambda>a c. 10 * a + (unat c - 48)) 0 s"

text \<open>The invariant of the loop of \<open>build\<close> that writes the objects, after the objects \<open>objs\<close>.\<close>

definition writerInv :: "PDFObject list \<Rightarrow> writer \<Rightarrow> bool" where
  "writerInv objs w =
     (byteOffset w = length (concat (chunks w)) \<and>
      (\<forall>obj \<in> set objs. \<exists>off. offsets w (obj_id obj) = Some off \<and> placed (concat (chunks w)) (obj_id obj) off))"

section \<open>Properties\<close>

subsection \<open>The one-shot guard of \<open>build\<close>\<close>

lemma addObject_pages [simp]: "pages (snd (addObject dct st d)) = pages d"
  and addObject_built [simp]: "built (snd (addObject dct st d)) = built d"
  by (simp_all add: addObject_def)

lemma finish_built: "built (snd (finish d))"
  by (simp add: finish_def addObject_def Let_def split: prod.splits)

lemma finish_pages: "pages (snd (finish d)) = pages d"
  by (simp add: finish_def addObject_def Let_def split: prod.splits)

text \<open>
  C2. \<open>build\<close> on a builder with no page throws \<open>NoPages\<close> (so it returns no bytes) and
  leaves the object list, the page list, the id counter and the \<open>built\<close> flag as they were.
\<close>

theorem build_no_pages:
  "pages d = [] \<Longrightarrow> build S d = (Inl NoPages, d)"
  by (simp add: build_def)

theorem build_no_pages_witness:
  "pages pdf = [] \<and> build (\<lambda>x. []) pdf = (Inl NoPages, pdf)"
  using build_no_pages [of pdf "\<lambda>x. []"] by (simp add: pdf_def)

lemma addAnnots_doc:
  "addAnnots ls d = (rs, d') \<Longrightarrow> pages d' = pages d \<and> built d' = built d"
proof (induction ls arbitrary: d rs d')
  case Nil
  then show ?case by simp
next
  case (Cons lnk ls)
  obtain r d1 where a: "addObject (annotDict lnk) None d = (r, d1)"
    by (cases "addObject (annotDict lnk) None d")
  obtain rs1 d2 where b: "addAnnots ls d1 = (rs1, d2)"
    by (cases "addAnnots ls d1")
  from Cons.prems a b have "d' = d2" by simp
  moreover from a have "pages d1 = pages d \<and> built d1 = built d"
    by (auto simp: addObject_def)
  ultimately show ?case using Cons.IH [OF b] by simp
qed

lemma perform_doc:
  assumes "perform S c (d, p) = Inr (d', p')"
  shows "pages d' = pages d \<and> built d' = built d"
  using assms
  by (cases c) (auto simp: ctx_image_def addObject_def Let_def split: sum.splits prod.splits)

lemma perform_error:
  assumes "perform S c st = Inl e"
  shows "\<exists>f. e = MalformedImage f"
  using assms
  by (cases c; cases st)
     (auto simp: ctx_image_def parseJpeg_def Let_def split: sum.splits prod.splits if_splits scan_exit.splits)

lemma runCallback_doc:
  "runCallback S cs (d, p) = (r, d', p') \<Longrightarrow> pages d' = pages d \<and> built d' = built d"
proof (induction cs arbitrary: d p)
  case Nil
  then show ?case by simp
next
  case (Cons c cs)
  show ?case
  proof (cases "perform S c (d, p)")
    case (Inl e)
    with Cons.prems show ?thesis by simp
  next
    case (Inr st)
    obtain d1 p1 where st: "st = (d1, p1)" by (cases st)
    from Inr st Cons.prems have "runCallback S cs (d1, p1) = (r, d', p')" by simp
    from Cons.IH [OF this] perform_doc [OF Inr [unfolded st]] show ?thesis by simp
  qed
qed

lemma runCallback_error:
  "runCallback S cs st = (Some e, st') \<Longrightarrow> \<exists>f. e = MalformedImage f"
proof (induction cs arbitrary: st)
  case Nil
  then show ?case by simp
next
  case (Cons c cs)
  then show ?case
    by (cases "perform S c st") (auto dest: perform_error)
qed

lemma page_built: "built (snd (page S a d)) = built d"
  by (cases a)
     (auto simp: page_def Let_def addObject_def split: prod.splits option.splits
           dest!: runCallback_doc addAnnots_doc)

lemma page_pages_nonempty: "pages d \<noteq> [] \<Longrightarrow> pages (snd (page S a d)) \<noteq> []"
  by (cases a)
     (auto simp: page_def Let_def addObject_def split: prod.splits option.splits
           dest!: runCallback_doc addAnnots_doc)

lemma page_ok_pages:
  "fst (page S a d) = Inr () \<Longrightarrow> length (pages (snd (page S a d))) = Suc (length (pages d))"
  by (cases a)
     (auto simp: page_def Let_def addObject_def split: prod.splits option.splits
           dest!: runCallback_doc addAnnots_doc)

lemma page_error: "fst (page S a d) = Inl e \<Longrightarrow> \<exists>f. e = MalformedImage f"
  by (cases a)
     (auto simp: page_def Let_def split: prod.splits option.splits dest!: runCallback_error)


lemma afterPages_state:
  "built d \<Longrightarrow> pages d \<noteq> [] \<Longrightarrow> built (afterPages S as d) \<and> pages (afterPages S as d) \<noteq> []"
  unfolding afterPages_def
  by (induction as arbitrary: d) (simp_all add: page_built page_pages_nonempty)

lemma build_ok_iff: "\<not> isl (fst (build S d)) \<longleftrightarrow> pages d \<noteq> [] \<and> \<not> built d"
  by (simp add: build_def Let_def split: prod.splits)

lemma build_snd: "pages d \<noteq> [] \<Longrightarrow> \<not> built d \<Longrightarrow> snd (build S d) = snd (finish d)"
  by (simp add: build_def Let_def split: prod.splits)

lemma build_built: "pages d \<noteq> [] \<Longrightarrow> built d \<Longrightarrow> build S d = (Inl AlreadyBuilt, d)"
  by (simp add: build_def)

lemma page_empty_ok: "fst (page S (PageFn []) d) = Inr ()"
  by (simp add: page_def Let_def split: prod.splits)

text \<open>
  C1, as the code has it. Once \<open>build\<close> has returned its bytes, every later \<open>build\<close> throws
  \<open>AlreadyBuilt\<close> and changes nothing, whatever \<open>page\<close> calls came in between. \<open>page\<close> has
  no such guard: a later \<open>page\<close> call never throws \<open>AlreadyBuilt\<close> (nor \<open>NoPages\<close>), and when
  it returns it has appended its page.
\<close>

theorem build_only_once:
  assumes "\<not> isl (fst (build S d))"
  shows "build S (afterPages S as (snd (build S d))) = (Inl AlreadyBuilt, afterPages S as (snd (build S d)))
       \<and> fst (page S a (snd (build S d))) \<noteq> Inl AlreadyBuilt
       \<and> fst (page S a (snd (build S d))) \<noteq> Inl NoPages
       \<and> (fst (page S a (snd (build S d))) = Inr () \<longrightarrow>
            length (pages (snd (page S a (snd (build S d))))) = Suc (length (pages (snd (build S d)))))"
proof -
  let ?d' = "snd (build S d)"
  from assms have pd: "pages d \<noteq> []" "\<not> built d" by (simp_all add: build_ok_iff)
  then have "built ?d'" "pages ?d' \<noteq> []"
    by (simp_all add: build_snd finish_built finish_pages)
  then have "built (afterPages S as ?d') \<and> pages (afterPages S as ?d') \<noteq> []"
    by (rule afterPages_state)
  then have 1: "build S (afterPages S as ?d') = (Inl AlreadyBuilt, afterPages S as ?d')"
    by (simp add: build_built)
  have 2: "fst (page S a ?d') \<noteq> Inl AlreadyBuilt" "fst (page S a ?d') \<noteq> Inl NoPages"
    using page_error [of S a ?d'] by auto
  from 1 2 page_ok_pages [of S a ?d'] show ?thesis by blast
qed

lemma one_page: "pages (snd (page S (PageFn []) pdf)) = [2] \<and> \<not> built (snd (page S (PageFn []) pdf))"
  by (simp add: page_def Let_def pdf_def addObject_def split: prod.splits)

theorem build_only_once_witness:
  "\<not> isl (fst (build (\<lambda>x. []) (snd (page (\<lambda>x. []) (PageFn []) pdf))))
   \<and> build (\<lambda>x. []) (afterPages (\<lambda>x. []) [PageFn []] (snd (build (\<lambda>x. []) (snd (page (\<lambda>x. []) (PageFn []) pdf)))))
       = (Inl AlreadyBuilt, afterPages (\<lambda>x. []) [PageFn []] (snd (build (\<lambda>x. []) (snd (page (\<lambda>x. []) (PageFn []) pdf)))))"
  using build_only_once [of "\<lambda>x. []" "snd (page (\<lambda>x. []) (PageFn []) pdf)" "[PageFn []]" "PageFn []"]
  by (simp add: build_ok_iff one_page)

text \<open>
  C1 as stated fails: on the builder with one empty page, \<open>build\<close> succeeds and the
  \<open>page\<close> call after it returns normally.
\<close>

theorem page_after_build_counterexample:
  "\<not> isl (fst (build (\<lambda>x. []) (snd (page (\<lambda>x. []) (PageFn []) pdf))))
   \<and> fst (page (\<lambda>x. []) (PageFn []) (snd (build (\<lambda>x. []) (snd (page (\<lambda>x. []) (PageFn []) pdf))))) = Inr ()"
  by (simp add: build_ok_iff one_page page_empty_ok)

lemma getProp_MediaBox: "getProp (js ''MediaBox'') (pageDict w h c xo an) = VArr [VNum 0, VNum 0, VNum w, VNum h]"
  by (simp add: getProp_def pageDict_def js_def)

lemma getProp_Type: "getProp (js ''Type'') (pageDict w h c xo an) = VStr (js ''/Page'')"
  by (simp add: getProp_def pageDict_def)

subsection \<open>The default page size\<close>

text \<open>
  C10. \<open>page(fn)\<close> is \<open>page(612, 792, fn)\<close>: the same outcome and the same builder state,
  hence the same drawing. When the call returns, the object it allocated last is the page
  object, its \<open>MediaBox\<close> is \<open>[0, 0, 612, 792]\<close>, and its reference is the last of \<open>pages\<close>.
\<close>

theorem page_default_size:
  "page S (PageFn fn) d = page S (PageSized 612 792 fn) d \<and>
   (fst (page S (PageFn fn) d) = Inr () \<longrightarrow>
      getProp (js ''MediaBox'') (dict (last (objects (snd (page S (PageFn fn) d)))))
         = VArr [VNum 0, VNum 0, VNum 612, VNum 792]
      \<and> getProp (js ''Type'') (dict (last (objects (snd (page S (PageFn fn) d))))) = VStr (js ''/Page'')
      \<and> last (pages (snd (page S (PageFn fn) d))) = obj_id (last (objects (snd (page S (PageFn fn) d)))))"
  by (auto simp: page_def Let_def addObject_def getProp_MediaBox getProp_Type split: prod.splits option.splits)

theorem page_default_size_witness:
  "fst (page (\<lambda>x. []) (PageFn []) pdf) = Inr () \<and>
   page (\<lambda>x. []) (PageFn []) pdf = page (\<lambda>x. []) (PageSized 612 792 []) pdf \<and>
   getProp (js ''MediaBox'') (dict (last (objects (snd (page (\<lambda>x. []) (PageFn []) pdf)))))
         = VArr [VNum 0, VNum 0, VNum 612, VNum 792]"
  using page_default_size [of "\<lambda>x. []" "[]" pdf] page_empty_ok [of "\<lambda>x. []" pdf]
  by blast

subsection \<open>Text strings in the serializer\<close>

lemma replaceAll_Nil [simp]: "replaceAll c r [] = []"
  by (simp add: replaceAll_def)

lemma replaceAll_Cons [simp]:
  "replaceAll c r (x # xs) = (if x = c then r else [x]) @ replaceAll c r xs"
  by (simp add: replaceAll_def)

lemma replaceAll_append [simp]:
  "replaceAll c r (xs @ ys) = replaceAll c r xs @ replaceAll c r ys"
  by (simp add: replaceAll_def)

text \<open>The five passes of \<open>pdfString\<close> amount to one pass that escapes unit by unit.\<close>

lemma escape_passes:
  "replaceAll LF [BACKSLASH, 0x6E]
     (replaceAll CR [BACKSLASH, 0x72]
       (replaceAll RPAREN [BACKSLASH, RPAREN]
         (replaceAll LPAREN [BACKSLASH, LPAREN]
           (replaceAll BACKSLASH [BACKSLASH, BACKSLASH] s)))) = escaped s"
proof (induction s)
  case Nil
  show ?case by (simp add: escaped_def)
next
  case (Cons c s)
  have "replaceAll LF [BACKSLASH, 0x6E]
     (replaceAll CR [BACKSLASH, 0x72]
       (replaceAll RPAREN [BACKSLASH, RPAREN]
         (replaceAll LPAREN [BACKSLASH, LPAREN]
           (if c = BACKSLASH then [BACKSLASH, BACKSLASH] else [c])))) = escapeChar c"
    by (simp add: escapeChar_def BACKSLASH_def LPAREN_def RPAREN_def CR_def LF_def)
  with Cons show ?case
    by (simp add: escaped_def)
qed

lemma pdfString_escaped: "pdfString s = [LPAREN] @ escaped s @ [RPAREN]"
  by (simp add: pdfString_def escape_passes)

text \<open>
  C5, as the code has it. \<open>serialize\<close> is a total function on value trees (its recursion
  terminates on every finite tree and no case of it throws). A string that starts with
  \<open>/\<close> or with \<open>(\<close> is emitted as it is; every other string is emitted between
  parentheses with backslash, both parentheses, carriage return and line feed escaped and
  every other code unit unchanged.
\<close>

theorem serialize_text_string:
  "serialize S (VStr s) =
     (if take 1 s = [SLASH] \<or> take 1 s = [LPAREN] then s else [LPAREN] @ escaped s @ [RPAREN])"
  by (simp add: pdfString_escaped)

text \<open>
  C5 as stated fails on the string \<open>(a)\<close>, which is not a name: it is emitted as \<open>(a)\<close>, not
  as \<open>(\(a\))\<close>.
\<close>

theorem serialize_paren_counterexample:
  "take 1 (js ''(a)'') \<noteq> [SLASH] \<and>
   serialize (\<lambda>x. []) (VStr (js ''(a)'')) = js ''(a)'' \<and>
   [LPAREN] @ escaped (js ''(a)'') @ [RPAREN] = [LPAREN, BACKSLASH, LPAREN, 0x61, BACKSLASH, RPAREN, RPAREN] \<and>
   serialize (\<lambda>x. []) (VStr (js ''(a)'')) \<noteq> [LPAREN] @ escaped (js ''(a)'') @ [RPAREN]"
  by (simp add: js_def SLASH_def LPAREN_def RPAREN_def BACKSLASH_def escaped_def escapeChar_def CR_def LF_def)

subsection \<open>The image header parser\<close>

lemma be16_eq: "be16 hi lo = 256 * unat hi + unat lo"
proof -
  have "push_bit 8 (unat hi) + unat lo = push_bit 8 (unat hi) OR unat lo"
    by (rule disjunctive_add) (auto simp: bit_push_bit_iff bit_unsigned_iff dest: bit_imp_le_length)
  then show ?thesis
    by (simp add: be16_def push_bit_eq_mult)
qed

text \<open>What one round of the loop at index \<open>k\<close> does when it leaves the loop there.\<close>

lemma scan_sos: "sosAt bytes k \<Longrightarrow> scan bytes k = BreakSOS"
  by (subst scan.simps) (simp add: sosAt_def)

lemma scan_end: "endsAt bytes k \<Longrightarrow> scan bytes k = LoopEnd"
  by (subst scan.simps) (simp add: endsAt_def)

lemma scan_cutFrame: "cutFrameAt bytes k \<Longrightarrow> scan bytes k = BreakShortFrame"
  by (subst scan.simps) (auto simp: cutFrameAt_def isFrameMarker_def)

lemma scan_cutSegment: "cutSegmentAt bytes k \<Longrightarrow> scan bytes k = BreakShortLength"
  by (subst scan.simps) (auto simp: cutSegmentAt_def isFrameMarker_def)

lemma scan_usable: "usableFrameAt bytes k \<Longrightarrow> scan bytes k = Found (frameInfo bytes k)"
  by (subst scan.simps)
     (auto simp: usableFrameAt_def frameAt_def isFrameMarker_def frameWidth_def frameHeight_def
                 frameInfo_def be16_eq colorSpaceOf_def)

lemma reach_scan: "reach bytes i \<Longrightarrow> scan bytes 2 = scan bytes i"
proof (induction rule: reach.induct)
  case start
  show ?case by simp
next
  case (skipByte i)
  have "scan bytes i = scan bytes (i + 1)"
    using skipByte.hyps by (subst scan.simps) simp
  with skipByte.IH show ?case by simp
next
  case (skipSegment i)
  have "scan bytes i = scan bytes (i + 2 + be16 (bytes ! (i + 2)) (bytes ! (i + 3)))"
    using skipSegment.hyps
    by (subst scan.simps)
       (auto simp: usableFrameAt_def frameAt_def isFrameMarker_def frameWidth_def frameHeight_def)
  with skipSegment.IH show ?case by simp
qed

lemma scan_stops: "stopsAt bytes k \<Longrightarrow> \<not> (\<exists>info. scan bytes k = Found info)"
  unfolding stopsAt_def
  by (auto simp: scan_sos scan_end scan_cutFrame scan_cutSegment)

lemma scan_trace:
  "reach bytes i \<Longrightarrow> \<exists>k. reach bytes k \<and> (stopsAt bytes k \<or> usableFrameAt bytes k)"
proof (induction bytes i rule: scan.induct)
  case (1 bytes i)
  show ?case
  proof (cases "stopsAt bytes i \<or> usableFrameAt bytes i")
    case True
    with "1.prems" show ?thesis by blast
  next
    case False
    then have ne: "i + 1 < length bytes" by (simp add: stopsAt_def endsAt_def)
    show ?thesis
    proof (cases "bytes ! i = 0xFF")
      case nf: False
      from "1.prems" ne nf have "reach bytes (i + 1)" by (rule reach.skipByte)
      with "1.IH"(1) ne nf show ?thesis by simp
    next
      case ff: True
      from False ne ff have nsos: "bytes ! (i + 1) \<noteq> 0xDA"
        by (auto simp: stopsAt_def sosAt_def)
      from False ne ff have c: "\<not> isFrameMarker (bytes ! (i + 1)) \<or> (frameAt bytes i \<and> \<not> usableFrameAt bytes i)"
        by (auto simp: stopsAt_def cutFrameAt_def frameAt_def)
      from False ne ff nsos c have l3: "i + 3 < length bytes"
        by (auto simp: stopsAt_def cutSegmentAt_def frameAt_def)
      from "1.prems" l3 ff nsos c
      have r: "reach bytes (i + 2 + be16 (bytes ! (i + 2)) (bytes ! (i + 3)))"
        by (rule reach.skipSegment)
      have "\<not> ((bytes ! (i + 1) = 0xC0 \<or> bytes ! (i + 1) = 0xC2) \<and> i + 9 \<ge> length bytes)"
        using c by (auto simp: isFrameMarker_def frameAt_def)
      moreover have "\<not> ((bytes ! (i + 1) = 0xC0 \<or> bytes ! (i + 1) = 0xC2)
              \<and> be16 (bytes ! (i + 7)) (bytes ! (i + 8)) \<noteq> 0
              \<and> be16 (bytes ! (i + 5)) (bytes ! (i + 6)) \<noteq> 0)"
        using c by (auto simp: isFrameMarker_def usableFrameAt_def frameWidth_def frameHeight_def)
      ultimately show ?thesis
        using "1.IH"(2) ne ff nsos l3 r by simp
    qed
  qed
qed


text \<open>
  C3, as the code has it. \<open>parseJpeg\<close> throws the one error when the first two bytes are
  not the start-of-image marker, and the other exactly when the scan, before it finds a
  frame header with non-zero width and height, comes to an index where it meets the
  start-of-scan marker or the end of the bytes (fewer than two bytes left, or a frame
  header or a length field cut short). It throws nothing else, and it returns exactly
  when the scan comes to a frame header with non-zero width and height. On its way the
  scan jumps over a frame header whose width or height is zero as over any other segment.
\<close>

theorem parseJpeg_fails_iff:
  "(parseJpeg bytes = Inl (MalformedImage MissingSOI) \<longleftrightarrow> \<not> hasSOI bytes) \<and>
   (parseJpeg bytes = Inl (MalformedImage NoValidSOF) \<longleftrightarrow>
      hasSOI bytes \<and> (\<exists>k. reach bytes k \<and> stopsAt bytes k)) \<and>
   (isl (parseJpeg bytes) \<longleftrightarrow>
      parseJpeg bytes = Inl (MalformedImage MissingSOI) \<or> parseJpeg bytes = Inl (MalformedImage NoValidSOF)) \<and>
   (\<not> isl (parseJpeg bytes) \<longleftrightarrow> hasSOI bytes \<and> (\<exists>k. reach bytes k \<and> usableFrameAt bytes k))"
proof -
  obtain k where k: "reach bytes k" "stopsAt bytes k \<or> usableFrameAt bytes k"
    using scan_trace [OF reach.start] by blast
  have stop: "\<not> (\<exists>info. scan bytes 2 = Found info)" if "reach bytes j" "stopsAt bytes j" for j
    using that scan_stops [of bytes j] reach_scan [of bytes j] by simp
  have use: "scan bytes 2 = Found (frameInfo bytes j)" if "reach bytes j" "usableFrameAt bytes j" for j
    using that scan_usable [of bytes j] reach_scan [of bytes j] by simp
  have found_iff: "(\<exists>info. scan bytes 2 = Found info) \<longleftrightarrow> (\<exists>j. reach bytes j \<and> usableFrameAt bytes j)"
    using k stop use by blast
  have stop_iff: "\<not> (\<exists>info. scan bytes 2 = Found info) \<longleftrightarrow> (\<exists>j. reach bytes j \<and> stopsAt bytes j)"
    using k stop use by blast
  have a: "parseJpeg bytes = Inl (MalformedImage MissingSOI) \<longleftrightarrow> \<not> hasSOI bytes"
    by (auto simp: parseJpeg_def split: scan_exit.splits)
  have b: "parseJpeg bytes = Inl (MalformedImage NoValidSOF) \<longleftrightarrow>
      hasSOI bytes \<and> \<not> (\<exists>info. scan bytes 2 = Found info)"
    by (auto simp: parseJpeg_def split: scan_exit.splits)
  have c: "isl (parseJpeg bytes) \<longleftrightarrow>
      parseJpeg bytes = Inl (MalformedImage MissingSOI) \<or> parseJpeg bytes = Inl (MalformedImage NoValidSOF)"
    by (auto simp: parseJpeg_def split: scan_exit.splits)
  have d: "\<not> isl (parseJpeg bytes) \<longleftrightarrow> hasSOI bytes \<and> (\<exists>info. scan bytes 2 = Found info)"
    by (auto simp: parseJpeg_def split: scan_exit.splits)
  from b stop_iff have b': "parseJpeg bytes = Inl (MalformedImage NoValidSOF) \<longleftrightarrow>
      hasSOI bytes \<and> (\<exists>k. reach bytes k \<and> stopsAt bytes k)" by blast
  from d found_iff have d': "\<not> isl (parseJpeg bytes) \<longleftrightarrow>
      hasSOI bytes \<and> (\<exists>k. reach bytes k \<and> usableFrameAt bytes k)" by blast
  from a b' c d' show ?thesis by blast
qed

lemma zs_scan: "scan zeroHeightThenSOS 2 = BreakSOS"
  by (simp add: scan.simps zeroHeightThenSOS_def be16_def)

text \<open>
  C3 as stated fails: the stream starts with the start-of-image marker and a complete frame
  header stands at the first index scanned, before any start-of-scan marker and before
  the end of the bytes, and yet \<open>parseJpeg\<close> throws, because the height is 0.
\<close>

theorem parseJpeg_zero_height_counterexample:
  "hasSOI zeroHeightThenSOS \<and> frameAt zeroHeightThenSOS 2 \<and> \<not> stopsAt zeroHeightThenSOS 2 \<and>
   parseJpeg zeroHeightThenSOS = Inl (MalformedImage NoValidSOF)"
  by (simp add: parseJpeg_def zs_scan) (simp add: hasSOI_def frameAt_def isFrameMarker_def zeroHeightThenSOS_def stopsAt_def sosAt_def
       endsAt_def cutFrameAt_def cutSegmentAt_def)

theorem parseJpeg_fails_iff_witness:
  "reach zeroHeightThenSOS 15 \<and> stopsAt zeroHeightThenSOS 15 \<and>
   parseJpeg zeroHeightThenSOS = Inl (MalformedImage NoValidSOF)"
proof -
  have r2: "reach zeroHeightThenSOS 2" by (rule reach.start)
  have "reach zeroHeightThenSOS (2 + 2 + be16 (zeroHeightThenSOS ! (2 + 2)) (zeroHeightThenSOS ! (2 + 3)))"
    by (rule reach.skipSegment [OF r2])
       (simp_all add: zeroHeightThenSOS_def isFrameMarker_def frameAt_def usableFrameAt_def
          frameHeight_def frameWidth_def be16_def)
  then have r: "reach zeroHeightThenSOS 15"
    by (simp add: zeroHeightThenSOS_def be16_def)
  have s: "stopsAt zeroHeightThenSOS 15"
    by (simp add: stopsAt_def sosAt_def zeroHeightThenSOS_def)
  have h: "hasSOI zeroHeightThenSOS"
    by (simp add: hasSOI_def zeroHeightThenSOS_def)
  from r s h parseJpeg_fails_iff [of zeroHeightThenSOS] show ?thesis by blast
qed


lemma getProp_image:
  "getProp (js ''Width'') (imageDict info n) = VNum (of_nat (width info))"
  "getProp (js ''Height'') (imageDict info n) = VNum (of_nat (height info))"
  "getProp (js ''ColorSpace'') (imageDict info n) = VStr (colorSpace info)"
  by (simp_all add: getProp_def imageDict_def js_def)

text \<open>
  C4, as the code has it. When the scan comes to a frame header (baseline or progressive,
  the nine bytes after the marker prefix present) whose width and height are not zero,
  \<open>parseJpeg\<close> returns the big-endian height and width and the color space of the component
  count (1 gray, 4 CMYK, otherwise RGB), and \<open>image\<close> allocates an object with the bytes as
  its stream whose \<open>Width\<close>, \<open>Height\<close> and \<open>ColorSpace\<close> are these.
\<close>

theorem parseJpeg_frame_header:
  assumes "hasSOI bytes" and "reach bytes i" and "frameAt bytes i"
    and "frameWidth bytes i \<noteq> 0" and "frameHeight bytes i \<noteq> 0"
  shows "parseJpeg bytes = Inr (frameInfo bytes i) \<and>
     (case ctx_image S bytes x y w h (d, p) of
        Inl e \<Rightarrow> False
      | Inr (d', p') \<Rightarrow>
          objects d' = objects d @ [\<lparr>obj_id = nextId d,
                                     dict = imageDict (frameInfo bytes i) (length bytes),
                                     stream = Some bytes\<rparr>]
          \<and> getProp (js ''Width'') (dict (last (objects d'))) = VNum (of_nat (width (frameInfo bytes i)))
          \<and> getProp (js ''Height'') (dict (last (objects d'))) = VNum (of_nat (height (frameInfo bytes i)))
          \<and> getProp (js ''ColorSpace'') (dict (last (objects d'))) = VStr (colorSpace (frameInfo bytes i)))"
proof -
  from assms have "usableFrameAt bytes i" by (simp add: usableFrameAt_def)
  with assms(2) have "scan bytes 2 = Found (frameInfo bytes i)"
    using scan_usable [of bytes i] reach_scan [of bytes i] by simp
  with assms(1) have p: "parseJpeg bytes = Inr (frameInfo bytes i)"
    by (simp add: parseJpeg_def)
  then show ?thesis
    by (simp add: ctx_image_def addObject_def Let_def getProp_image)
qed

text \<open>
  C4 as stated fails: the scan comes to a progressive frame header with all its bytes, and
  \<open>parseJpeg\<close> throws, because the width is 0.
\<close>

theorem parseJpeg_zero_width_counterexample:
  "hasSOI zeroWidthFrame \<and> reach zeroWidthFrame 2 \<and> frameAt zeroWidthFrame 2 \<and>
   parseJpeg zeroWidthFrame = Inl (MalformedImage NoValidSOF)"
proof -
  have s: "scan zeroWidthFrame 2 = LoopEnd"
    by (simp add: scan.simps zeroWidthFrame_def be16_def)
  have h: "hasSOI zeroWidthFrame \<and> frameAt zeroWidthFrame 2"
    by (simp add: hasSOI_def frameAt_def isFrameMarker_def zeroWidthFrame_def)
  with s have "parseJpeg zeroWidthFrame = Inl (MalformedImage NoValidSOF)"
    by (simp add: parseJpeg_def)
  with h show ?thesis by (simp add: reach.start)
qed

theorem parseJpeg_frame_header_witness:
  "hasSOI cmykImage \<and> reach cmykImage 8 \<and> frameAt cmykImage 8 \<and>
   frameWidth cmykImage 8 \<noteq> 0 \<and> frameHeight cmykImage 8 \<noteq> 0 \<and>
   parseJpeg cmykImage = Inr \<lparr>width = 3, height = 2, colorSpace = js ''/DeviceCMYK''\<rparr>"
proof -
  have r2: "reach cmykImage 2" by (rule reach.start)
  have "reach cmykImage (2 + 2 + be16 (cmykImage ! (2 + 2)) (cmykImage ! (2 + 3)))"
    by (rule reach.skipSegment [OF r2]) (simp_all add: cmykImage_def isFrameMarker_def)
  then have r: "reach cmykImage 8"
    by (simp add: cmykImage_def be16_def)
  have h: "hasSOI cmykImage"
    by (simp add: hasSOI_def cmykImage_def)
  have f: "frameAt cmykImage 8"
    by (simp add: frameAt_def isFrameMarker_def cmykImage_def)
  have wd: "frameWidth cmykImage 8 \<noteq> 0" "frameHeight cmykImage 8 \<noteq> 0"
    by (simp_all add: frameWidth_def frameHeight_def cmykImage_def be16_def)
  have i: "frameInfo cmykImage 8 = \<lparr>width = 3, height = 2, colorSpace = js ''/DeviceCMYK''\<rparr>"
    by (simp add: frameInfo_def cmykImage_def)
  from parseJpeg_frame_header [OF h r f wd]
  show ?thesis using h r f wd i by simp
qed

subsection \<open>Rounding to binary64\<close>

text \<open>
  \<open>ilog2\<close> finds the binade, so \<open>fl\<close> can be computed from any exponent \<open>e\<close> with
  \<open>2\<^sup>e \<le> x < 2\<^sup>e\<^sup>+\<^sup>1\<close>; \<open>fl\<close> keeps the integers below \<open>2\<^sup>5\<^sup>3\<close> and moves a normal number by
  at most the fraction \<open>2\<^sup>-\<^sup>5\<^sup>3\<close> of it.
\<close>

lemma fl_0 [simp]: "fl 0 = 0"
  by (simp add: fl_def)

lemma pow2_powi: "pow2 e = 2 powi e"
  by (simp add: pow2_def power_int_def field_simps)

lemma pow2_pos [simp]: "0 < pow2 e"
  by (simp add: pow2_powi)

lemma pow2_add: "pow2 (a + b) = pow2 a * pow2 b"
  by (simp add: pow2_powi power_int_add)

lemma pow2_mono: "a \<le> b \<Longrightarrow> pow2 a \<le> pow2 b"
  by (simp add: pow2_powi power_int_increasing)

lemma pow2_strict_mono: "a < b \<Longrightarrow> pow2 a < pow2 b"
  by (simp add: pow2_powi power_int_strict_increasing)

lemma pow2_nat: "pow2 (int n) = 2 ^ n"
  by (simp add: pow2_def)

lemma bitlen_pow2_bounds:
  assumes "0 < (x::int)"
  shows "pow2 (bitlen x - 1) \<le> of_int x \<and> of_int x < pow2 (bitlen x)"
proof -
  from assms have b: "0 < bitlen x" by (auto simp: bitlen_alt_def)
  from bitlen_bounds [OF assms] have "2 ^ nat (bitlen x - 1) \<le> x" "x < 2 ^ nat (bitlen x)"
    by simp_all
  then have "(of_int (2 ^ nat (bitlen x - 1)) :: rat) \<le> of_int x" "(of_int x :: rat) < of_int (2 ^ nat (bitlen x))"
    by (simp_all only: of_int_le_iff of_int_less_iff)
  with b show ?thesis
    by (simp add: pow2_def)
qed

lemma ilog2_bounds:
  assumes "0 < a"
  shows "pow2 (ilog2 a) \<le> a \<and> a < pow2 (ilog2 a + 1)"
proof (cases "1 \<le> a")
  case True
  then have f: "0 < \<lfloor>a\<rfloor>" by simp
  from bitlen_pow2_bounds [OF f] have 1: "pow2 (bitlen \<lfloor>a\<rfloor> - 1) \<le> of_int \<lfloor>a\<rfloor>"
    and 2: "of_int \<lfloor>a\<rfloor> < pow2 (bitlen \<lfloor>a\<rfloor>)" by simp_all
  from 1 have l: "pow2 (bitlen \<lfloor>a\<rfloor> - 1) \<le> a"
    by (rule order_trans) simp
  from f have "0 < bitlen \<lfloor>a\<rfloor>" by (auto simp: bitlen_alt_def)
  then have "pow2 (bitlen \<lfloor>a\<rfloor>) = of_int (2 ^ nat (bitlen \<lfloor>a\<rfloor>))"
    by (simp add: pow2_def)
  with 2 have "\<lfloor>a\<rfloor> < 2 ^ nat (bitlen \<lfloor>a\<rfloor>)"
    by (simp only: of_int_less_iff)
  then have "\<lfloor>a\<rfloor> + 1 \<le> 2 ^ nat (bitlen \<lfloor>a\<rfloor>)" by simp
  then have "(of_int (\<lfloor>a\<rfloor> + 1) :: rat) \<le> of_int (2 ^ nat (bitlen \<lfloor>a\<rfloor>))"
    by (simp only: of_int_le_iff)
  moreover have "a < of_int (\<lfloor>a\<rfloor> + 1)" by linarith
  ultimately have "a < of_int (2 ^ nat (bitlen \<lfloor>a\<rfloor>))" by linarith
  with \<open>pow2 (bitlen \<lfloor>a\<rfloor>) = of_int (2 ^ nat (bitlen \<lfloor>a\<rfloor>))\<close> have u: "a < pow2 (bitlen \<lfloor>a\<rfloor>)"
    by simp
  from True l u show ?thesis by (simp add: ilog2_def)
next
  case False
  with assms have t: "1 < 1 / a" by simp
  define m where "m = \<lceil>1 / a\<rceil>"
  from t have m2: "2 \<le> m" unfolding m_def by linarith
  then have m1: "0 < m - 1" by simp
  define b where "b = bitlen (m - 1)"
  from m1 have bpos: "0 < b" by (auto simp: b_def bitlen_alt_def)
  from bitlen_pow2_bounds [OF m1] have 1: "pow2 (b - 1) \<le> of_int (m - 1)"
    and 2: "of_int (m - 1) < pow2 b" by (simp_all add: b_def)
  have lt: "of_int (m - 1) < 1 / a" unfolding m_def by linarith
  have le: "1 / a \<le> of_int m" unfolding m_def by linarith
  from bpos have pb: "pow2 b = of_int (2 ^ nat b)" by (simp add: pow2_def)
  with 2 have "m - 1 < 2 ^ nat b" by (simp only: of_int_less_iff)
  then have "m \<le> 2 ^ nat b" by simp
  then have "(of_int m :: rat) \<le> of_int (2 ^ nat b)" by (simp only: of_int_le_iff)
  moreover have "(of_int (2 ^ nat b) :: rat) = 2 ^ nat b" by simp
  ultimately have up: "1 / a \<le> pow2 b" using le pb by linarith
  from 1 lt have lo: "pow2 (b - 1) < 1 / a" by linarith
  have inv: "pow2 (- b) = 1 / pow2 b" "pow2 (- b + 1) = 1 / pow2 (b - 1)"
    by (simp_all add: pow2_powi power_int_minus field_simps power_int_diff power_int_add)
  from up assms have "1 / pow2 b \<le> a"
    by (simp add: field_simps)
  moreover from lo assms have "a < 1 / pow2 (b - 1)"
    by (simp add: field_simps)
  ultimately show ?thesis
    using False inv by (simp add: ilog2_def m_def b_def)
qed

lemma ilog2_unique:
  assumes "0 < a" and "pow2 e \<le> a" and "a < pow2 (e + 1)"
  shows "ilog2 a = e"
proof -
  from ilog2_bounds [OF assms(1)] have b: "pow2 (ilog2 a) \<le> a" "a < pow2 (ilog2 a + 1)"
    by simp_all
  have "\<not> ilog2 a < e"
  proof
    assume "ilog2 a < e"
    then have "pow2 (ilog2 a + 1) \<le> pow2 e" by (intro pow2_mono) simp
    with b assms show False by linarith
  qed
  moreover have "\<not> e < ilog2 a"
  proof
    assume "e < ilog2 a"
    then have "pow2 (e + 1) \<le> pow2 (ilog2 a)" by (intro pow2_mono) simp
    with b assms show False by linarith
  qed
  ultimately show ?thesis by simp
qed

lemma rne_int [simp]: "rne (of_int k) = k"
  by (simp add: rne_def)

lemma rne_close: "\<bar>of_int (rne x) - x\<bar> \<le> 1 / 2"
proof -
  have "of_int \<lfloor>x\<rfloor> \<le> x" "x < of_int \<lfloor>x\<rfloor> + 1" by linarith+
  then show ?thesis
    by (auto simp: rne_def Let_def)
qed

lemma fl_eval:
  assumes "0 < x" and "pow2 e \<le> x" and "x < pow2 (e + 1)" and "- 1022 \<le> e"
  shows "fl x = of_int (rne (x / pow2 (e - 52))) * pow2 (e - 52)"
proof -
  from assms have "ilog2 x = e" by (intro ilog2_unique)
  with assms show ?thesis
    by (simp add: fl_def Let_def max_def)
qed

lemma fl_neg: "fl (- x) = - fl x"
  by (simp add: fl_def Let_def)

lemma fl_int_pos:
  assumes "0 < n" and "n < 2 ^ 53"
  shows "fl (of_int n) = of_int n"
proof -
  define e where "e = bitlen n - 1"
  from assms have e0: "0 \<le> e" by (auto simp: e_def bitlen_alt_def)
  from bitlen_pow2_bounds [OF assms(1)] have b: "pow2 e \<le> of_int n" "of_int n < pow2 (e + 1)"
    by (simp_all add: e_def)
  have "e < 53"
  proof (rule ccontr)
    assume "\<not> e < 53"
    then have "pow2 53 \<le> pow2 e" by (intro pow2_mono) simp
    moreover have "pow2 53 = 2 ^ 53" by (simp add: pow2_def)
    moreover from assms(2) have "(of_int n :: rat) < of_int (2 ^ 53)" by (simp only: of_int_less_iff)
    ultimately show False using b by simp
  qed
  then have e52: "e \<le> 52" by simp
  have q: "pow2 (e - 52) * pow2 (52 - e) = 1"
    by (simp add: pow2_add [symmetric] pow2_def)
  from e52 have p: "pow2 (52 - e) = of_int (2 ^ nat (52 - e))"
    by (simp add: pow2_def)
  have "pow2 (52 - e) = inverse (pow2 (e - 52))"
    using q by (metis inverse_unique mult.commute)
  then have "of_int n / pow2 (e - 52) = of_int n * pow2 (52 - e)"
    by (simp add: divide_inverse)
  also have "\<dots> = of_int (n * 2 ^ nat (52 - e))"
    by (simp add: p)
  finally have d: "of_int n / pow2 (e - 52) = of_int (n * 2 ^ nat (52 - e))" .
  from assms e0 b have "fl (of_int n) = of_int (rne (of_int n / pow2 (e - 52))) * pow2 (e - 52)"
    by (intro fl_eval) simp_all
  also have "\<dots> = of_int (n * 2 ^ nat (52 - e)) * pow2 (e - 52)"
    by (simp only: d rne_int)
  also have "\<dots> = of_int n * (pow2 (52 - e) * pow2 (e - 52))"
    by (simp add: p)
  also have "\<dots> = of_int n"
    using q by (simp add: mult.commute)
  finally show ?thesis .
qed

lemma fl_int:
  assumes "\<bar>n\<bar> < 2 ^ 53"
  shows "fl (of_int n) = of_int n"
proof (cases "n = 0")
  case True
  then show ?thesis by simp
next
  case False
  show ?thesis
  proof (cases "0 < n")
    case True
    with assms show ?thesis by (simp add: fl_int_pos)
  next
    case f: False
    with False assms have "0 < - n" "- n < 2 ^ 53" by simp_all
    then have "fl (of_int (- n)) = of_int (- n)" by (rule fl_int_pos)
    then show ?thesis by (simp add: fl_neg)
  qed
qed

lemma fl_close:
  assumes "pow2 (- 1022) \<le> x"
  shows "\<bar>fl x - x\<bar> \<le> x / 2 ^ 53"
proof -
  have x0: "0 < x" using assms pow2_pos [of "- 1022"] by linarith
  define e where "e = ilog2 x"
  from ilog2_bounds [OF x0] have b: "pow2 e \<le> x" "x < pow2 (e + 1)"
    by (simp_all add: e_def)
  have e: "- 1022 \<le> e"
  proof (rule ccontr)
    assume "\<not> - 1022 \<le> e"
    then have "pow2 (e + 1) \<le> pow2 (- 1022)" by (intro pow2_mono) simp
    with b assms show False by linarith
  qed
  define q where "q = pow2 (e - 52)"
  have qpos: "0 < q" by (simp add: q_def)
  from x0 b e have f: "fl x = of_int (rne (x / q)) * q"
    unfolding q_def by (rule fl_eval)
  have "fl x - x = (of_int (rne (x / q)) - x / q) * q"
    using qpos by (simp add: f field_simps)
  then have "\<bar>fl x - x\<bar> = \<bar>of_int (rne (x / q)) - x / q\<bar> * q"
    using qpos by (simp add: abs_mult abs_of_pos)
  also have "\<dots> \<le> (1 / 2) * q"
    using rne_close [of "x / q"] qpos by (intro mult_right_mono) simp_all
  also have "\<dots> = pow2 e / 2 ^ 53"
  proof -
    have "pow2 e = pow2 (e - 52) * pow2 52" by (simp add: pow2_add [symmetric])
    moreover have "pow2 52 = 2 ^ 52" by (simp add: pow2_def)
    ultimately show ?thesis by (simp add: q_def)
  qed
  also have "\<dots> \<le> x / 2 ^ 53"
    using b by (simp add: divide_right_mono)
  finally show ?thesis .
qed

lemma rne_unique:
  assumes "\<bar>of_int k - x\<bar> < 1 / 2"
  shows "rne x = k"
proof (cases "of_int k \<le> x")
  case True
  with assms have "\<lfloor>x\<rfloor> = k" by (intro floor_unique) (simp_all add: abs_less_iff)
  with assms True show ?thesis
    by (simp add: rne_def Let_def abs_less_iff)
next
  case False
  with assms have "\<lfloor>x\<rfloor> = k - 1" by (intro floor_unique) (simp_all add: abs_less_iff)
  with assms False show ?thesis
    by (simp add: rne_def Let_def abs_less_iff)
qed

lemma fl_value:
  assumes "0 < x" and "pow2 e \<le> x" and "x < pow2 (e + 1)" and "- 1022 \<le> e"
    and "\<bar>of_int k - x / pow2 (e - 52)\<bar> < 1 / 2"
  shows "fl x = of_int k * pow2 (e - 52)"
  using fl_eval [OF assms(1-4)] rne_unique [OF assms(5)] by simp

lemma fl_nat: "n < 2 ^ 53 \<Longrightarrow> fl (of_nat n) = of_nat n"
  using fl_int [of "int n"] by simp

lemma fl_numeral: "numeral k < (2::int) ^ 53 \<Longrightarrow> fl (numeral k) = numeral k"
  using fl_int [of "numeral k"] by simp










lemma isInteger_of_int [simp]: "isInteger (of_int n)"
  by (simp add: isInteger_def)



lemma isInteger_diff: "isInteger a \<Longrightarrow> isInteger b \<Longrightarrow> isInteger (a - b)"
  by (metis isInteger_def of_int_diff isInteger_of_int)





subsection \<open>Word wrap\<close>

lemma measureText_Nil [simp]: "measureText [] sz = 0"
  by (simp add: measureText_def sumWidths_def)

lemma codePoints_single: "ch \<in> set (codePoints w) \<Longrightarrow> singleChar ch"
  by (induction w rule: codePoints.induct) (auto simp: singleChar_def split: if_splits)

lemma chunkStep_inv:
  assumes "wrapInv sz maxW st" and "singleChar ch"
  shows "wrapInv sz maxW (chunkStep sz maxW st ch)"
proof (cases st)
  case (Pair lines chunk)
  with assms show ?thesis
    by (auto simp: wrapInv_def chunkStep_def fits_def)
qed

lemma chunks_inv:
  "wrapInv sz maxW st \<Longrightarrow> \<forall>ch \<in> set cs. singleChar ch \<Longrightarrow>
   wrapInv sz maxW (foldl (chunkStep sz maxW) st cs)"
  by (induction cs arbitrary: st) (simp_all add: chunkStep_inv)

lemma wordStep_inv:
  assumes "wrapInv sz maxW st"
  shows "wrapInv sz maxW (wordStep sz maxW st word)"
proof (cases st)
  case (Pair lines line)
  show ?thesis
  proof (cases "measureText word sz > maxW")
    case True
    from assms Pair have "wrapInv sz maxW (if line \<noteq> [] then lines @ [line] else lines, [])"
      by (auto simp: wrapInv_def)
    then have "wrapInv sz maxW
        (foldl (chunkStep sz maxW) (if line \<noteq> [] then lines @ [line] else lines, []) (codePoints word))"
      by (rule chunks_inv) (simp add: codePoints_single)
    with True Pair show ?thesis by (simp add: wordStep_def)
  next
    case False
    with assms Pair show ?thesis
      by (auto simp: wordStep_def wrapInv_def fits_def Let_def)
  qed
qed

lemma words_inv:
  "wrapInv sz maxW st \<Longrightarrow> wrapInv sz maxW (foldl (wordStep sz maxW) st ws)"
  by (induction ws arbitrary: st) (simp_all add: wordStep_inv)

text \<open>
  C7, as the code has it. \<open>wrap\<close> always returns at least one line. Every line it returns
  has a measured width of at most \<open>maxWidth\<close> or is a single character, except that for a
  negative \<open>maxWidth\<close> the result may be the one empty line that \<open>wrap\<close> returns when it
  has produced no line.
\<close>

theorem wrap_lines:
  "wrap text sz maxW \<noteq> [] \<and>
   (\<forall>l \<in> set (wrap text sz maxW).
      measureText l sz \<le> maxW \<or> singleChar l \<or> (maxW < 0 \<and> wrap text sz maxW = [[]]))"
proof -
  obtain lines line where f: "foldl (wordStep sz maxW) ([], []) (split 0x20 text) = (lines, line)"
    by (cases "foldl (wordStep sz maxW) ([], []) (split 0x20 text)")
  have "wrapInv sz maxW ([], [])" by (simp add: wrapInv_def)
  then have "wrapInv sz maxW (foldl (wordStep sz maxW) ([], []) (split 0x20 text))"
    by (rule words_inv)
  with f have inv: "\<forall>l \<in> set lines. fits sz maxW l" "line = [] \<or> fits sz maxW line"
    by (simp_all add: wrapInv_def)
  show ?thesis
  proof (cases "lines = [] \<and> line = []")
    case True
    with f have w: "wrap text sz maxW = [[]]" by (simp add: wrap_def)
    show ?thesis
    proof (cases "maxW < 0")
      case True
      with w show ?thesis by simp
    next
      case False
      with w show ?thesis by simp
    qed
  next
    case False
    with f have w: "wrap text sz maxW = (if line \<noteq> [] then lines @ [line] else lines)"
      by (auto simp: wrap_def)
    with False inv show ?thesis
      by (auto simp: fits_def)
  qed
qed

theorem wrap_lines_witness:
  "js ''a b'' \<in> set (wrap (js ''a b'') 1000 2000) \<and>
   (measureText (js ''a b'') 1000 \<le> 2000 \<or> singleChar (js ''a b'')
    \<or> ((2000::rat) < 0 \<and> wrap (js ''a b'') 1000 2000 = [[]]))"
proof -
  have m: "js ''a b'' \<in> set (wrap (js ''a b'') 1000 2000)"
    by (simp add: wrap_def wordStep_def js_def measureText_def sumWidths_def glyphWidth_def
          WIDTHS_def fl_numeral)
  with wrap_lines [of "js ''a b''" 1000 2000] show ?thesis by blast
qed

text \<open>
  C7 as stated fails for a negative \<open>maxWidth\<close>: the empty text gives the one empty line,
  whose width 0 exceeds \<open>-1\<close> and which is not a single character.
\<close>

theorem wrap_negative_width_counterexample:
  "wrap [] 12 (- 1) = [[]] \<and> \<not> measureText [] 12 \<le> - 1 \<and> \<not> singleChar []"
  by (simp add: wrap_def wordStep_def singleChar_def)


subsection \<open>Text width and size\<close>

lemma glyph_a: "glyphWidth 0x61 = 556"
  by (simp add: glyphWidth_def WIDTHS_def)

lemma sumWidths_a: "sumWidths (js ''a'') = 556"
  by (simp add: sumWidths_def js_def glyph_a fl_numeral)

lemma fl_1668: "fl (417 / 250) = 7512004178453987 / 4503599627370496"
  using fl_value [of "417 / 250" 0 7512004178453987] by (simp add: pow2_def)

lemma fl_556: "fl (139 / 250) = 626000348204499 / 1125899906842624"
  using fl_value [of "139 / 250" "- 1" 5008002785635992] by (simp add: pow2_def)

lemma fl_3: "fl (1878001044613497 / 1125899906842624) = 1878001044613497 / 1125899906842624"
  using fl_value [of "1878001044613497 / 1125899906842624" 0 7512004178453988] by (simp add: pow2_def)

text \<open>
  C9 as stated fails: for the string \<open>a\<close> (glyph width 556) and size 3, \<open>measureText\<close>
  gives the double nearest to 1.668, while \<open>measureText\<close> at size 1 gives the double
  nearest to 0.556, whose product with 3 rounds to the next double above. The two differ,
  whether the product is taken in double arithmetic or exactly.
\<close>

theorem measureText_not_linear_counterexample:
  "measureText (js ''a'') 3 = 7512004178453987 / 4503599627370496 \<and>
   fl (measureText (js ''a'') 1 * 3) = 7512004178453988 / 4503599627370496 \<and>
   measureText (js ''a'') 3 \<noteq> fl (measureText (js ''a'') 1 * 3) \<and>
   measureText (js ''a'') 3 \<noteq> measureText (js ''a'') 1 * 3"
  by (simp add: measureText_def sumWidths_a fl_numeral fl_1668 fl_556 fl_3)


lemma glyphWidth_bounds: "191 \<le> glyphWidth c \<and> glyphWidth c \<le> 1015"
proof (cases "32 \<le> unat c \<and> unat c \<le> 126")
  case True
  have b: "\<forall>w \<in> set WIDTHS. 191 \<le> w \<and> w \<le> 1015"
    by (simp add: WIDTHS_def)
  have "length WIDTHS = 95" by (simp add: WIDTHS_def)
  with True have "unat c - 32 < length WIDTHS" by arith
  then have "WIDTHS ! (unat c - 32) \<in> set WIDTHS"
    by (rule nth_mem)
  with b True show ?thesis by (simp add: glyphWidth_def Let_def)
next
  case False
  then show ?thesis by (auto simp: glyphWidth_def Let_def)
qed

lemma sumWidths_aux:
  "acc + 1015 * length s < 2 ^ 53 \<Longrightarrow>
   foldl (\<lambda>width c. fl (width + of_nat (glyphWidth c))) (of_nat acc) s
     = of_nat (acc + sum_list (map glyphWidth s))"
proof (induction s arbitrary: acc)
  case Nil
  show ?case by simp
next
  case (Cons c s)
  from glyphWidth_bounds [of c] Cons.prems have lt: "acc + glyphWidth c < 2 ^ 53"
    and nx: "(acc + glyphWidth c) + 1015 * length s < 2 ^ 53" by simp_all
  have "fl (of_nat acc + of_nat (glyphWidth c)) = fl (of_nat (acc + glyphWidth c))" by simp
  also from lt have "\<dots> = of_nat (acc + glyphWidth c)" by (rule fl_nat)
  finally have "fl (of_nat acc + of_nat (glyphWidth c)) = of_nat (acc + glyphWidth c)" .
  with Cons.IH [OF nx] show ?case by (simp add: add.assoc)
qed

lemma sumWidths_exact:
  assumes "length s < 2 ^ 32"
  shows "sumWidths s = of_nat (glyphSum s)"
proof -
  from assms have "1015 * length s < 1015 * 2 ^ 32" by simp
  also have "\<dots> < (2::nat) ^ 53" by simp
  finally have "0 + 1015 * length s < 2 ^ 53" by simp
  from sumWidths_aux [OF this] show ?thesis
    by (simp add: sumWidths_def glyphSum_def)
qed

lemma glyphSum_ge: "s \<noteq> [] \<Longrightarrow> 191 \<le> glyphSum s"
  using glyphWidth_bounds [of "hd s"] by (cases s) (simp_all add: glyphSum_def)

lemma fl_two_sided:
  assumes "pow2 (- 1022) \<le> x"
  shows "x * (1 - 1 / 2 ^ 53) \<le> fl x \<and> fl x \<le> x * (1 + 1 / 2 ^ 53)"
proof -
  define d where "d = x / 2 ^ 53"
  have e: "x * (1 - 1 / 2 ^ 53) = x - d" "x * (1 + 1 / 2 ^ 53) = x + d"
    by (simp_all add: d_def algebra_simps)
  from fl_close [OF assms] have "\<bar>fl x - x\<bar> \<le> d" by (simp only: d_def)
  then have "x - d \<le> fl x" "fl x \<le> x + d" by linarith+
  then show ?thesis by (simp only: e)
qed

lemma fl_fl_bounds:
  assumes x: "pow2 (- 1022) \<le> x" and c: "0 < c" and y: "pow2 (- 1022) \<le> c * fl x"
  shows "c * x * (1 - 1 / 2 ^ 53) ^ 2 \<le> fl (c * fl x) \<and> fl (c * fl x) \<le> c * x * (1 + 1 / 2 ^ 53) ^ 2"
proof -
  let ?lo = "1 - 1 / 2 ^ 53 :: rat" and ?hi = "1 + 1 / 2 ^ 53 :: rat"
  have lo: "0 < ?lo" and hi: "0 < ?hi" by simp_all
  from fl_two_sided [OF x] have 1: "x * ?lo \<le> fl x" "fl x \<le> x * ?hi" by simp_all
  from fl_two_sided [OF y] have 2: "c * fl x * ?lo \<le> fl (c * fl x)" "fl (c * fl x) \<le> c * fl x * ?hi"
    by simp_all
  from 1(1) c lo have "c * (x * ?lo) * ?lo \<le> c * fl x * ?lo"
    by (intro mult_right_mono mult_left_mono) simp_all
  with 2(1) have a: "c * x * ?lo ^ 2 \<le> fl (c * fl x)"
    by (simp add: power2_eq_square mult.assoc)
  from 1(2) c hi have "c * fl x * ?hi \<le> c * (x * ?hi) * ?hi"
    by (intro mult_right_mono mult_left_mono) simp_all
  with 2(2) have b: "fl (c * fl x) \<le> c * x * ?hi ^ 2"
    by (simp add: power2_eq_square mult.assoc)
  from a b show ?thesis by simp
qed

text \<open>
  C9, as the code has it. For a string of fewer than \<open>2\<^sup>3\<^sup>2\<close> code units and a size between
  \<open>2\<^sup>-\<^sup>1\<^sup>0\<^sup>0\<^sup>0\<close> and \<open>2\<^sup>9\<^sup>0\<^sup>0\<close>, \<open>measureText(s, z)\<close> is the sum of the glyph widths times \<open>z\<close>,
  rounded, divided by 1000, rounded; \<open>measureText(s, 1)\<close> is that sum divided by 1000,
  rounded. So \<open>measureText(s, z)\<close> and \<open>measureText(s, 1) * z\<close> are two double roundings of
  the same exact product and differ by at most the fraction \<open>2\<^sup>-\<^sup>5\<^sup>1\<close> of it. On a
  printable-ASCII string the sum is that of the entries of the width table.
\<close>

theorem measureText_nearly_linear:
  assumes len: "length s < 2 ^ 32" and zlo: "1 / 2 ^ 1000 \<le> z" and zhi: "z \<le> 2 ^ 900"
  shows "measureText s z = fl (fl (of_nat (glyphSum s) * z) / 1000) \<and>
         measureText s 1 = fl (of_nat (glyphSum s) / 1000) \<and>
         \<bar>measureText s z - fl (measureText s 1 * z)\<bar> \<le> of_nat (glyphSum s) * z / 1000 / 2 ^ 51 \<and>
         ((\<forall>c \<in> set s. 32 \<le> unat c \<and> unat c \<le> 126) \<longrightarrow>
            glyphSum s = sum_list (map (\<lambda>c. WIDTHS ! (unat c - 32)) s))"
proof -
  let ?W = "of_nat (glyphSum s) :: rat"
  have gs: "glyphSum s < 2 ^ 53"
  proof -
    have "glyphSum s \<le> 1015 * length s"
      unfolding glyphSum_def using glyphWidth_bounds
      by (induction s) (simp_all add: add_mono)
    also from len have "\<dots> < 1015 * 2 ^ 32" by simp
    also have "\<dots> < (2::nat) ^ 53" by simp
    finally show ?thesis .
  qed
  have m: "measureText s z = fl (fl (?W * z) / 1000)"
    by (simp add: measureText_def sumWidths_exact [OF len])
  have m1: "measureText s 1 = fl (?W / 1000)"
    by (simp add: measureText_def sumWidths_exact [OF len] fl_nat [OF gs])
  have z0: "0 < z" using zlo by (rule less_le_trans [rotated]) simp
  have bound: "\<bar>measureText s z - fl (measureText s 1 * z)\<bar> \<le> ?W * z / 1000 / 2 ^ 51"
  proof (cases "s = []")
    case True
    then show ?thesis by (simp add: glyphSum_def)
  next
    case False
    then have W: "191 \<le> ?W" using glyphSum_ge [of s] by (metis of_nat_le_iff of_nat_numeral)
    have p: "pow2 (- 1022) = 1 / 2 ^ 1022" by (simp add: pow2_def)
    have lo: "(0::rat) < 1 - 1 / 2 ^ 53" by simp
    have small: "(1 / 2 ^ 1022 :: rat) \<le> 1 / 1000 * (191 * (1 / 2 ^ 1000) * (1 - 1 / 2 ^ 53))"
      by simp
    have Wz: "191 * (1 / 2 ^ 1000) \<le> ?W * z"
      using W zlo by (intro mult_mono) simp_all
    then have x: "pow2 (- 1022) \<le> ?W * z"
      unfolding p by (rule order_trans [rotated]) simp
    have "191 * (1 / 2 ^ 1000) * (1 - 1 / 2 ^ 53) \<le> ?W * z * (1 - 1 / 2 ^ 53)"
      using Wz lo by (intro mult_right_mono) simp_all
    also have "\<dots> \<le> fl (?W * z)"
      using fl_two_sided [OF x] by simp
    finally have "1 / 1000 * (191 * (1 / 2 ^ 1000) * (1 - 1 / 2 ^ 53)) \<le> 1 / 1000 * fl (?W * z)"
      by (intro mult_left_mono) simp_all
    with small have y: "pow2 (- 1022) \<le> 1 / 1000 * fl (?W * z)"
      unfolding p by (rule order_trans)
    from fl_fl_bounds [OF x _ y]
    have A: "?W * z / 1000 * (1 - 1 / 2 ^ 53) ^ 2 \<le> measureText s z"
        "measureText s z \<le> ?W * z / 1000 * (1 + 1 / 2 ^ 53) ^ 2"
      by (simp_all add: m)
    have W1: "191 * (1 / 1000) \<le> ?W / 1000"
      using W by simp
    then have x': "pow2 (- 1022) \<le> ?W / 1000"
      unfolding p by (rule order_trans [rotated]) simp
    have "191 * (1 / 1000) * (1 - 1 / 2 ^ 53) \<le> ?W / 1000 * (1 - 1 / 2 ^ 53)"
      using W1 lo by (intro mult_right_mono) simp_all
    also have "\<dots> \<le> fl (?W / 1000)"
      using fl_two_sided [OF x'] by simp
    finally have "1 / 2 ^ 1000 * (191 * (1 / 1000) * (1 - 1 / 2 ^ 53)) \<le> z * fl (?W / 1000)"
      using zlo by (intro mult_mono) simp_all
    moreover have "(1 / 2 ^ 1022 :: rat) \<le> 1 / 2 ^ 1000 * (191 * (1 / 1000) * (1 - 1 / 2 ^ 53))"
      by simp
    ultimately have y': "pow2 (- 1022) \<le> z * fl (?W / 1000)"
      unfolding p by (rule order_trans [rotated])
    from fl_fl_bounds [OF x' z0 y']
    have B: "?W * z / 1000 * (1 - 1 / 2 ^ 53) ^ 2 \<le> fl (measureText s 1 * z)"
        "fl (measureText s 1 * z) \<le> ?W * z / 1000 * (1 + 1 / 2 ^ 53) ^ 2"
      by (simp_all add: m1 mult.commute)
    define X where "X = ?W * z / 1000"
    have d: "X * (1 + 1 / 2 ^ 53) ^ 2 - X * (1 - 1 / 2 ^ 53) ^ 2 = X / 2 ^ 51"
      by (simp add: power2_eq_square algebra_simps)
    from A B have "\<bar>measureText s z - fl (measureText s 1 * z)\<bar>
        \<le> X * (1 + 1 / 2 ^ 53) ^ 2 - X * (1 - 1 / 2 ^ 53) ^ 2"
      unfolding X_def by linarith
    then have "\<bar>measureText s z - fl (measureText s 1 * z)\<bar> \<le> X / 2 ^ 51"
      by (simp only: d)
    then show ?thesis by (simp only: X_def)
  qed
  have tab: "(\<forall>c \<in> set s. 32 \<le> unat c \<and> unat c \<le> 126) \<longrightarrow>
            glyphSum s = sum_list (map (\<lambda>c. WIDTHS ! (unat c - 32)) s)"
    by (induction s) (simp_all add: glyphSum_def glyphWidth_def)
  from m m1 bound tab show ?thesis by blast
qed

theorem measureText_nearly_linear_witness:
  "length (js ''a'') < 2 ^ 32 \<and> (1 / 2 ^ 1000 :: rat) \<le> 3 \<and> (3 :: rat) \<le> 2 ^ 900 \<and>
   \<bar>measureText (js ''a'') 3 - fl (measureText (js ''a'') 1 * 3)\<bar>
     \<le> of_nat (glyphSum (js ''a'')) * 3 / 1000 / 2 ^ 51"
proof -
  have h: "length (js ''a'') < 2 ^ 32" by (simp add: js_def)
  have l: "(1 / 2 ^ 1000 :: rat) \<le> 3" by simp
  have u: "(3 :: rat) \<le> 2 ^ 900" by simp
  from measureText_nearly_linear [OF h l u] h l u show ?thesis by blast
qed

subsection \<open>Pagination\<close>
















































text \<open>
  The whole-number metrics matter as well. On a page of height 60 with the margin 10, four
  items with the metrics 0.1, 9.6 and 0.3 all pass the test, \<open>needed\<close> being 10 in double
  arithmetic, and the fourth leaves the cursor at 9.999999999999998.
\<close>

lemma loose_before: "fl (1 / 10) = 3602879701896397 / 36028797018963968"
  using fl_value [of "1 / 10" "-4" 7205759403792794] by (simp add: pow2_def)

lemma loose_size: "fl (48 / 5) = 5404319552844595 / 562949953421312"
  using fl_value [of "48 / 5" "3" 5404319552844595] by (simp add: pow2_def)

lemma loose_after: "fl (3 / 10) = 5404319552844595 / 18014398509481984"
  using fl_value [of "3 / 10" "-2" 5404319552844595] by (simp add: pow2_def)

lemma loose_sum: "fl (349479331083950477 / 36028797018963968) = 2730307274093363 / 281474976710656"
  using fl_value [of "349479331083950477 / 36028797018963968" "3" 5460614548186726] by (simp add: pow2_def)

lemma loose_needed: "fl (180143985094819827 / 18014398509481984) = 10"
  using fl_value [of "180143985094819827 / 18014398509481984" "3" 5629499534213120] by (simp add: pow2_def)

lemma loose_tail: "fl (178342545243871635 / 18014398509481984) = 5573204538870989 / 562949953421312"
  using fl_value [of "178342545243871635 / 18014398509481984" "3" 5573204538870989] by (simp add: pow2_def)

lemma loose_y0: "fl (1797836971246302003 / 36028797018963968) = 7022800668930867 / 140737488355328"
  using fl_value [of "1797836971246302003 / 36028797018963968" "5" 7022800668930867] by (simp add: pow2_def)

lemma loose_c0: "fl (22517998136852479 / 562949953421312) = 40"
  using fl_value [of "22517998136852479 / 562949953421312" "5" 5629499534213120] by (simp add: pow2_def)

lemma loose_y1: "fl (1437549001056662323 / 36028797018963968) = 5615425785377587 / 140737488355328"
  using fl_value [of "1437549001056662323 / 36028797018963968" "5" 5615425785377587] by (simp add: pow2_def)

lemma loose_c1: "fl (16888498602639359 / 562949953421312) = 30"
proof -
  have "\<lfloor>(16888498602639359 / 2 :: rat)\<rfloor> = 8444249301319679"
    by (rule floor_unique) simp_all
  then have "rne (16888498602639359 / 2) = 8444249301319680"
    by (simp add: rne_def Let_def)
  with fl_eval [of "16888498602639359 / 562949953421312" "4"] show ?thesis by (simp add: pow2_def)
qed

lemma loose_y2: "fl (1077261030867022643 / 36028797018963968) = 4208050901824307 / 140737488355328"
  using fl_value [of "1077261030867022643 / 36028797018963968" "4" 8416101803648614] by (simp add: pow2_def)

lemma loose_c2: "fl (11258999068426239 / 562949953421312) = 20"
proof -
  have "\<lfloor>(11258999068426239 / 2 :: rat)\<rfloor> = 5629499534213119"
    by (rule floor_unique) simp_all
  then have "rne (11258999068426239 / 2) = 5629499534213120"
    by (simp add: rne_def Let_def)
  with fl_eval [of "11258999068426239 / 562949953421312" "4"] show ?thesis by (simp add: pow2_def)
qed

lemma loose_y3: "fl (716973060677382963 / 36028797018963968) = 2800676018271027 / 140737488355328"
  using fl_value [of "716973060677382963 / 36028797018963968" "4" 5601352036542054] by (simp add: pow2_def)

lemma loose_c3: "fl (5629499534213119 / 562949953421312) = 5629499534213119 / 562949953421312"
  using fl_value [of "5629499534213119 / 562949953421312" "3" 5629499534213119] by (simp add: pow2_def)

lemma loose_fields:
  "spaceBefore looseItem = 3602879701896397 / 36028797018963968" "itemSize looseItem = 5404319552844595 / 562949953421312" "spaceAfter looseItem = 5404319552844595 / 18014398509481984"
  by (simp_all add: looseItem_def loose_before loose_size loose_after)

lemma loose_need: "needed looseItem = 10"
  by (simp add: needed_def loose_fields loose_sum loose_needed)

lemma loose_step1: "placeItem 60 10
     \<lparr>donePages = [], cursor = 50, curItems = [], curYs = []\<rparr> looseItem
   = \<lparr>donePages = [], cursor = 40, curItems = [looseItem], curYs = [7022800668930867 / 140737488355328]\<rparr>"
  by (simp add: placeItem_def loose_need loose_fields Let_def fl_numeral loose_tail loose_y0 loose_c0)

lemma loose_step2: "placeItem 60 10
     \<lparr>donePages = [], cursor = 40, curItems = [looseItem], curYs = [7022800668930867 / 140737488355328]\<rparr> looseItem
   = \<lparr>donePages = [], cursor = 30, curItems = [looseItem, looseItem], curYs = [7022800668930867 / 140737488355328, 5615425785377587 / 140737488355328]\<rparr>"
  by (simp add: placeItem_def loose_need loose_fields Let_def fl_numeral loose_tail loose_y1 loose_c1)

lemma loose_step3: "placeItem 60 10
     \<lparr>donePages = [], cursor = 30, curItems = [looseItem, looseItem], curYs = [7022800668930867 / 140737488355328, 5615425785377587 / 140737488355328]\<rparr> looseItem
   = \<lparr>donePages = [], cursor = 20, curItems = [looseItem, looseItem, looseItem], curYs = [7022800668930867 / 140737488355328, 5615425785377587 / 140737488355328, 4208050901824307 / 140737488355328]\<rparr>"
  by (simp add: placeItem_def loose_need loose_fields Let_def fl_numeral loose_tail loose_y2 loose_c2)

lemma loose_step4: "placeItem 60 10
     \<lparr>donePages = [], cursor = 20, curItems = [looseItem, looseItem, looseItem], curYs = [7022800668930867 / 140737488355328, 5615425785377587 / 140737488355328, 4208050901824307 / 140737488355328]\<rparr> looseItem
   = \<lparr>donePages = [], cursor = 5629499534213119 / 562949953421312, curItems = [looseItem, looseItem, looseItem, looseItem], curYs = [7022800668930867 / 140737488355328, 5615425785377587 / 140737488355328, 4208050901824307 / 140737488355328, 2800676018271027 / 140737488355328]\<rparr>"
  by (simp add: placeItem_def loose_need loose_fields Let_def fl_numeral loose_tail loose_y3 loose_c3)


lemma paginate_fractional_metrics:
  "paginate 60 10 [looseItem, looseItem, looseItem, looseItem] = [([looseItem, looseItem, looseItem, looseItem], [7022800668930867 / 140737488355328, 5615425785377587 / 140737488355328, 4208050901824307 / 140737488355328, 2800676018271027 / 140737488355328])] \<and>
   \<not> overflows 10 (cursorAt 60 10 [looseItem, looseItem, looseItem, looseItem] 3) looseItem \<and>
   cursorAt 60 10 [looseItem, looseItem, looseItem, looseItem] 4 < 10"
proof -
  have 1: "paginate 60 10 [looseItem, looseItem, looseItem, looseItem] = [([looseItem, looseItem, looseItem, looseItem], [7022800668930867 / 140737488355328, 5615425785377587 / 140737488355328, 4208050901824307 / 140737488355328, 2800676018271027 / 140737488355328])]"
    by (simp add: paginate_def fl_numeral loose_step1 loose_step2 loose_step3 loose_step4)
  have 2: "cursorAt 60 10 [looseItem, looseItem, looseItem, looseItem] 3 = 20"
    by (simp add: cursorAt_def afterItem_def loose_fields fl_numeral loose_tail loose_y0 loose_c0 loose_y1 loose_c1 loose_y2 loose_c2 numeral_3_eq_3)
  have 3: "cursorAt 60 10 [looseItem, looseItem, looseItem, looseItem] 4 = 5629499534213119 / 562949953421312"
    by (simp add: cursorAt_def afterItem_def loose_fields fl_numeral loose_tail loose_y0 loose_c0 loose_y1 loose_c1 loose_y2 loose_c2 loose_y3 loose_c3)
  have 4: "\<not> overflows 10 20 looseItem"
    by (simp add: overflows_def loose_need fl_numeral)
  from 1 2 3 4 show ?thesis by simp
qed

subsection \<open>Offsets in the cross-reference table\<close>

lemma encode_Cons_plain: "plain c \<Longrightarrow> encode (c # s) = utf8cp (unat c) @ encode s"
  by (cases s) (simp_all add: plain_def)

lemma encode_append_plain: "\<forall>c \<in> set a. plain c \<Longrightarrow> encode (a @ b) = encode a @ encode b"
  by (induction a) (simp_all add: encode_Cons_plain)

lemma String_nat_plain: "\<forall>c \<in> set (String_nat n). plain c"
proof (induction n rule: String_nat.induct)
  case (1 n)
  have d: "plain (of_nat (48 + k))" if "k < 10" for k
  proof -
    from that have "unat (of_nat (48 + k) :: jschar) = 48 + k"
      by (subst unat_of_nat) simp
    with that show ?thesis by (simp add: plain_def isHigh_def isLow_def)
  qed
  have d': "plain (48 + of_nat k)" if "k < 10" for k
    using d [OF that] by simp
  show ?case
  proof (cases "n < 10")
    case True
    then show ?thesis by (subst String_nat.simps) (simp add: d')
  next
    case False
    with 1 show ?thesis by (subst String_nat.simps) (simp add: d')
  qed
qed

lemma header_plain: "\<forall>c \<in> set (String_nat i @ js '' 0 obj\<newline>''). plain c"
  using String_nat_plain [of i] by (auto simp: js_def plain_def isHigh_def isLow_def)

lemma objHead_split: "objHead S obj = (String_nat (obj_id obj) @ js '' 0 obj\<newline>'') @ (serialize S (VObj (dict obj)) @ js ''\<newline>'')"
  by (simp add: objHead_def)

lemma objBytes_header: "\<exists>rest. objBytes S obj = objHeader (obj_id obj) @ rest"
proof -
  have "encode (objHead S obj @ t) = objHeader (obj_id obj) @ encode ((serialize S (VObj (dict obj)) @ js ''\<newline>'') @ t)" for t
  proof -
    have "encode ((String_nat (obj_id obj) @ js '' 0 obj\<newline>'') @ ((serialize S (VObj (dict obj)) @ js ''\<newline>'') @ t))
        = encode (String_nat (obj_id obj) @ js '' 0 obj\<newline>'') @ encode ((serialize S (VObj (dict obj)) @ js ''\<newline>'') @ t)"
      by (rule encode_append_plain) (rule header_plain)
    then show ?thesis by (simp add: objHead_def objHeader_def)
  qed
  then show ?thesis
    by (cases "stream obj") (simp_all add: objBytes_def)
qed

lemma writeObject_eq:
  "concat (chunks (writeObject S obj w)) = concat (chunks w) @ objBytes S obj \<and>
   byteOffset (writeObject S obj w) = byteOffset w + length (objBytes S obj) \<and>
   offsets (writeObject S obj w) = (offsets w)(obj_id obj \<mapsto> byteOffset w)"
  by (cases "stream obj") (simp_all add: writeObject_def push_def objBytes_def Let_def)

lemma placed_append: "placed out i off \<Longrightarrow> placed (out @ ext) i off"
  by (simp add: placed_def)

lemma placed_here: "placed (out @ objHeader i @ rest) i (length out)"
  by (simp add: placed_def)

lemma writeObject_inv:
  assumes "writerInv objs w" and "obj_id obj \<notin> obj_id ` set objs"
  shows "writerInv (objs @ [obj]) (writeObject S obj w)"
proof -
  obtain rest where r: "objBytes S obj = objHeader (obj_id obj) @ rest"
    using objBytes_header by blast
  note e = writeObject_eq [of S obj w]
  from assms(1) have b: "byteOffset w = length (concat (chunks w))" by (simp add: writerInv_def)
  have old: "\<exists>off. offsets (writeObject S obj w) (obj_id ob) = Some off
              \<and> placed (concat (chunks (writeObject S obj w))) (obj_id ob) off"
    if "ob \<in> set objs" for ob
  proof -
    from that assms(1) obtain off where "offsets w (obj_id ob) = Some off"
      "placed (concat (chunks w)) (obj_id ob) off" by (auto simp: writerInv_def)
    moreover from that assms(2) have "obj_id ob \<noteq> obj_id obj" by (metis image_eqI)
    ultimately show ?thesis using e by (simp add: placed_append)
  qed
  have new: "offsets (writeObject S obj w) (obj_id obj) = Some (byteOffset w)
      \<and> placed (concat (chunks (writeObject S obj w))) (obj_id obj) (byteOffset w)"
    using e b r placed_here [of "concat (chunks w)" "obj_id obj" rest] by simp
  from e b old new show ?thesis by (auto simp: writerInv_def)
qed

lemma written_inv_aux:
  "writerInv [] w0 \<Longrightarrow> distinct (map obj_id objs) \<Longrightarrow>
   writerInv objs (foldl (\<lambda>w obj. writeObject S obj w) w0 objs)"
proof (induction objs rule: rev_induct)
  case Nil
  then show ?case by simp
next
  case (snoc obj objs)
  then have "writerInv objs (foldl (\<lambda>w obj. writeObject S obj w) w0 objs)"
    and "obj_id obj \<notin> obj_id ` set objs" by auto
  then show ?case by (simp add: writeObject_inv)
qed

lemma written_inv: "distinct (map obj_id objs) \<Longrightarrow> writerInv objs (written S objs)"
  unfolding written_def
  by (rule written_inv_aux) (simp_all add: writerInv_def push_def)

lemma digit_unat: "k < 10 \<Longrightarrow> unat (of_nat (48 + k) :: jschar) = 48 + k"
  by (subst unat_of_nat) simp

lemma String_nat_small: "n < 10 \<Longrightarrow> String_nat n = [of_nat (48 + n)]"
  by (subst String_nat.simps) simp

lemma String_nat_big: "\<not> n < 10 \<Longrightarrow> String_nat n = String_nat (n div 10) @ [of_nat (48 + n mod 10)]"
  by (subst String_nat.simps) simp

lemma String_nat_isDigit: "\<forall>c \<in> set (String_nat n). isDigit c"
proof (induction n rule: String_nat.induct)
  case (1 n)
  show ?case
  proof (cases "n < 10")
    case True
    then show ?thesis
      by (simp only: String_nat_small) (simp add: isDigit_def digit_unat del: of_nat_add)
  next
    case False
    have "n mod 10 < 10" by simp
    then have "isDigit (of_nat (48 + n mod 10))"
      by (simp add: isDigit_def digit_unat del: of_nat_add)
    with 1 False show ?thesis
      by (simp only: String_nat_big [OF False]) simp
  qed
qed

lemma decimalValue_snoc: "decimalValue (s @ [c]) = 10 * decimalValue s + (unat c - 48)"
  by (simp add: decimalValue_def)

lemma decimalValue_String_nat: "decimalValue (String_nat n) = n"
proof (induction n rule: String_nat.induct)
  case (1 n)
  show ?case
  proof (cases "n < 10")
    case True
    then show ?thesis
      by (simp only: String_nat_small) (simp add: decimalValue_def digit_unat del: of_nat_add)
  next
    case False
    have "n mod 10 < 10" by simp
    then have "unat (of_nat (48 + n mod 10) :: jschar) - 48 = n mod 10"
      by (simp add: digit_unat del: of_nat_add)
    with 1 False show ?thesis
      by (simp only: String_nat_big [OF False] decimalValue_snoc) simp
  qed
qed

lemma decimalValue_zeros: "decimalValue (replicate k 0x30 @ s) = decimalValue s"
proof -
  have "foldl (\<lambda>a c. 10 * a + (unat c - 48)) 0 (replicate k (0x30 :: jschar)) = 0"
    by (induction k) simp_all
  then show ?thesis by (simp add: decimalValue_def)
qed

lemma String_nat_length: "0 < m \<Longrightarrow> n < 10 ^ m \<Longrightarrow> length (String_nat n) \<le> m"
proof (induction m arbitrary: n)
  case 0
  then show ?case by simp
next
  case (Suc m)
  show ?case
  proof (cases "n < 10")
    case True
    then show ?thesis by (simp add: String_nat_small)
  next
    case False
    with Suc.prems have m: "0 < m" by (cases m) simp_all
    from Suc.prems have "n div 10 < 10 ^ m" by (simp add: less_mult_imp_div_less mult.commute)
    from Suc.IH [OF m this] False show ?thesis by (simp add: String_nat_big)
  qed
qed

lemma padStart_decimal:
  "decimalValue (padStart 10 (String_nat off)) = off \<and>
   (\<forall>c \<in> set (padStart 10 (String_nat off)). isDigit c) \<and>
   (off < 10 ^ 10 \<longrightarrow> length (padStart 10 (String_nat off)) = 10)"
proof -
  have z: "isDigit 0x30" by (simp add: isDigit_def)
  have l: "length (padStart 10 (String_nat off)) = 10" if "off < 10 ^ 10"
    using String_nat_length [of 10 off] that by (simp add: padStart_def)
  from z l String_nat_isDigit [of off] show ?thesis
    by (auto simp: padStart_def decimalValue_zeros decimalValue_String_nat)
qed

lemma idsInOrder_addObject:
  assumes "idsInOrder d"
  shows "idsInOrder (snd (addObject dct st d)) \<and> fst (addObject dct st d) = Suc (length (objects d))
         \<and> length (objects (snd (addObject dct st d))) = Suc (length (objects d))"
  using assms by (simp add: idsInOrder_def addObject_def)

lemma backfill_id [simp]: "obj_id (backfill a b obj) = obj_id obj"
  by (simp add: backfill_def Let_def split: PDFValue.splits)

lemma idsInOrder_finish:
  assumes "idsInOrder d"
  shows "idsInOrder (snd (finish d)) \<and> fst (finish d) = length (objects (snd (finish d)))"
  using assms by (simp add: finish_def idsInOrder_def addObject_def Let_def comp_def)

lemma idsInOrder_distinct: "idsInOrder d \<Longrightarrow> distinct (map obj_id (objects d))"
  by (simp add: idsInOrder_def)

lemma idsInOrder_nth:
  assumes "idsInOrder d" and "1 \<le> i" and "i \<le> length (objects d)"
  shows "\<exists>obj \<in> set (objects d). obj_id obj = i"
proof -
  from assms(2,3) have "i \<in> set [1..<Suc (length (objects d))]" by auto
  with assms(1) have "i \<in> set (map obj_id (objects d))" by (simp only: idsInOrder_def)
  then show ?thesis by auto
qed

lemma build_out:
  assumes "pages d \<noteq> []" and "\<not> built d"
  shows "build S d =
     (Inr (concat (chunks (written S (objects (snd (finish d)))))
           @ encode (xrefText (length (objects (snd (finish d)))) (offsets (written S (objects (snd (finish d))))))
           @ encode (trailerText S (length (objects (snd (finish d)))) (fst (finish d)))
           @ encode (startxrefText (byteOffset (written S (objects (snd (finish d))))))),
      snd (finish d))"
  using assms by (simp add: build_def Let_def push_def split: prod.splits)

text \<open>
  C6. Let \<open>build\<close> run on a builder with its ids in order, at least one page and not yet
  built. It returns bytes \<open>out\<close>. With \<open>n\<close> the number of objects and \<open>x\<close> the offset the
  loop has reached after the last object: from byte \<open>x\<close> on, \<open>out\<close> holds the \<open>xref\<close> section
  (its head line, the entry \<open>0000000000 65535 f\<close> of object 0, the entries of the objects
  1 to \<open>n\<close>), the trailer and \<open>startxref\<close> with the decimal numeral of \<open>x\<close>. For every \<open>i\<close>
  from 1 to \<open>n\<close> an offset was recorded, the line \<open>i 0 obj\<close> stands at that offset of
  \<open>out\<close>, before \<open>x\<close>, and the entry of \<open>i\<close> is the decimal numeral of the offset padded with
  zeros, followed by \<open>00000 n\<close>: digits only, reading back as the offset, ten of them
  when the offset is below \<open>10\<^sup>1\<^sup>0\<close>.
\<close>

theorem build_xref:
  assumes "idsInOrder d" and "pages d \<noteq> []" and "\<not> built d"
  shows "case build S d of
           (Inl e, d') \<Rightarrow> False
         | (Inr out, d') \<Rightarrow>
             (let n = length (objects d'); w = written S (objects d'); x = byteOffset w in
              x \<le> length out \<and>
              drop x out =
                encode (js ''xref\<newline>0 '' @ String_nat (n + 1) @ js ''\<newline>0000000000 65535 f \<newline>'' @
                        concat (map (\<lambda>i. xrefEntry (offsets w i)) [1..<n + 1])) @
                encode (trailerText S n n) @
                encode (js ''startxref\<newline>'' @ String_nat x @ js ''\<newline>%%EOF\<newline>'') \<and>
              (\<forall>i. 1 \<le> i \<and> i \<le> n \<longrightarrow>
                 (\<exists>off. offsets w i = Some off \<and>
                    off + length (objHeader i) \<le> x \<and>
                    take (length (objHeader i)) (drop off out) = objHeader i \<and>
                    xrefEntry (offsets w i) = padStart 10 (String_nat off) @ js '' 00000 n \<newline>'' \<and>
                    decimalValue (padStart 10 (String_nat off)) = off \<and>
                    (\<forall>c \<in> set (padStart 10 (String_nat off)). isDigit c) \<and>
                    (off < 10 ^ 10 \<longrightarrow> length (padStart 10 (String_nat off)) = 10))))"
proof -
  let ?d' = "snd (finish d)"
  let ?w = "written S (objects ?d')"
  let ?n = "length (objects ?d')"
  let ?x = "byteOffset ?w"
  let ?out = "concat (chunks ?w) @ encode (xrefText ?n (offsets ?w))
           @ encode (trailerText S ?n (fst (finish d))) @ encode (startxrefText ?x)"
  from idsInOrder_finish [OF assms(1)] have ids: "idsInOrder ?d'" and cat: "fst (finish d) = ?n"
    by simp_all
  from written_inv [OF idsInOrder_distinct [OF ids], of S] have inv: "writerInv (objects ?d') ?w" .
  then have x: "?x = length (concat (chunks ?w))" by (simp add: writerInv_def)
  have 1: "?x \<le> length ?out" by (simp add: x)
  have 2: "drop ?x ?out =
                encode (js ''xref\<newline>0 '' @ String_nat (?n + 1) @ js ''\<newline>0000000000 65535 f \<newline>'' @
                        concat (map (\<lambda>i. xrefEntry (offsets ?w i)) [1..<?n + 1])) @
                encode (trailerText S ?n ?n) @
                encode (js ''startxref\<newline>'' @ String_nat ?x @ js ''\<newline>%%EOF\<newline>'')"
    by (simp add: x [symmetric] cat xrefText_def startxrefText_def)
  have 3: "\<exists>off. offsets ?w i = Some off \<and>
                    off + length (objHeader i) \<le> ?x \<and>
                    take (length (objHeader i)) (drop off ?out) = objHeader i \<and>
                    xrefEntry (offsets ?w i) = padStart 10 (String_nat off) @ js '' 00000 n \<newline>'' \<and>
                    decimalValue (padStart 10 (String_nat off)) = off \<and>
                    (\<forall>c \<in> set (padStart 10 (String_nat off)). isDigit c) \<and>
                    (off < 10 ^ 10 \<longrightarrow> length (padStart 10 (String_nat off)) = 10)"
    if i: "1 \<le> i" "i \<le> ?n" for i
  proof -
    from idsInOrder_nth [OF ids i] obtain obj where "obj \<in> set (objects ?d')" "obj_id obj = i"
      by blast
    with inv obtain off where o: "offsets ?w i = Some off" and p: "placed (concat (chunks ?w)) i off"
      by (auto simp: writerInv_def)
    from p have a: "off + length (objHeader i) \<le> ?x" by (simp add: placed_def x)
    have "placed ?out i off" by (rule placed_append [OF p])
    then have b: "take (length (objHeader i)) (drop off ?out) = objHeader i"
      by (simp only: placed_def)
    from o have c: "xrefEntry (offsets ?w i) = padStart 10 (String_nat off) @ js '' 00000 n \<newline>''"
      by (simp add: xrefEntry_def offsetString_def)
    from o a b c padStart_decimal [of off] show ?thesis by blast
  qed
  from 1 2 3 show ?thesis
    by (simp only: build_out [OF assms(2,3)] prod.case sum.case Let_def) blast
qed

text \<open>Every builder that \<open>pdf\<close>, \<open>page\<close> and \<open>build\<close> can produce has its ids in order.\<close>

lemma idsInOrder_pdf: "idsInOrder pdf"
  by (simp add: idsInOrder_def pdf_def)

lemma idsInOrder_perform:
  assumes "idsInOrder d" and "perform S c (d, p) = Inr (d', p')"
  shows "idsInOrder d'"
  using assms
  by (cases c) (auto simp: ctx_image_def idsInOrder_def addObject_def Let_def split: sum.splits prod.splits)

lemma idsInOrder_runCallback:
  "idsInOrder d \<Longrightarrow> runCallback S cs (d, p) = (r, d', p') \<Longrightarrow> idsInOrder d'"
proof (induction cs arbitrary: d p)
  case Nil
  then show ?case by simp
next
  case (Cons c cs)
  show ?case
  proof (cases "perform S c (d, p)")
    case (Inl e)
    with Cons.prems show ?thesis by simp
  next
    case (Inr st)
    obtain d1 p1 where st: "st = (d1, p1)" by (cases st)
    from Inr st Cons.prems have "runCallback S cs (d1, p1) = (r, d', p')" by simp
    moreover from Cons.prems(1) Inr [unfolded st] have "idsInOrder d1" by (rule idsInOrder_perform)
    ultimately show ?thesis by (rule Cons.IH [rotated])
  qed
qed

lemma idsInOrder_addAnnots:
  "idsInOrder d \<Longrightarrow> addAnnots ls d = (rs, d') \<Longrightarrow> idsInOrder d'"
proof (induction ls arbitrary: d rs d')
  case Nil
  then show ?case by simp
next
  case (Cons lnk ls)
  obtain r d1 where a: "addObject (annotDict lnk) None d = (r, d1)"
    by (cases "addObject (annotDict lnk) None d")
  obtain rs1 d2 where b: "addAnnots ls d1 = (rs1, d2)"
    by (cases "addAnnots ls d1")
  from Cons.prems a b have "d' = d2" by simp
  moreover from idsInOrder_addObject [OF Cons.prems(1), of "annotDict lnk" None] a have "idsInOrder d1"
    by simp
  ultimately show ?case using Cons.IH [OF _ b] by simp
qed

lemma idsInOrder_pages_upd [simp]: "idsInOrder (d\<lparr>pages := ps\<rparr>) = idsInOrder d"
  by (simp add: idsInOrder_def)

lemma idsInOrder_page:
  assumes "idsInOrder d"
  shows "idsInOrder (snd (page S a d))"
proof -
  obtain w h fn where a: "(case a of PageFn f \<Rightarrow> (612, 792, f) | PageSized w h f \<Rightarrow> (w, h, f)) = (w, h, fn)"
    by (cases "case a of PageFn f \<Rightarrow> (612, 792, f) | PageSized w h f \<Rightarrow> (w, h, f)") auto
  obtain r d1 p where rc: "runCallback S fn (d, \<lparr>ops = [], images = [], links = [], imageCount = 0\<rparr>) = (r, d1, p)"
    by (cases "runCallback S fn (d, \<lparr>ops = [], images = [], links = [], imageCount = 0\<rparr>)") auto
  from idsInOrder_runCallback [OF assms rc] have d1: "idsInOrder d1" .
  show ?thesis
  proof (cases r)
    case (Some e)
    with a rc d1 show ?thesis by (simp add: page_def)
  next
    case None
    let ?c = "encode (join [LF] (ops p))"
    obtain cr d2 where o2: "addObject [(js ''Length'', VNum (of_nat (length ?c)))] (Some ?c) d1 = (cr, d2)"
      by (cases "addObject [(js ''Length'', VNum (of_nat (length ?c)))] (Some ?c) d1")
    obtain an d3 where o3: "addAnnots (links p) d2 = (an, d3)"
      by (cases "addAnnots (links p) d2")
    from idsInOrder_addObject [OF d1, of "[(js ''Length'', VNum (of_nat (length ?c)))]" "Some ?c"] o2
    have "idsInOrder d2" by simp
    from idsInOrder_addAnnots [OF this o3] have d3: "idsInOrder d3" .
    obtain pr d4 where o4: "addObject (pageDict w h cr
         (foldl (\<lambda>xo img. setProp (drop 1 (fst img)) (VRef (snd img)) xo) [] (images p)) an) None d3 = (pr, d4)"
      by (cases "addObject (pageDict w h cr
         (foldl (\<lambda>xo img. setProp (drop 1 (fst img)) (VRef (snd img)) xo) [] (images p)) an) None d3")
    from idsInOrder_addObject [OF d3, of "pageDict w h cr
         (foldl (\<lambda>xo img. setProp (drop 1 (fst img)) (VRef (snd img)) xo) [] (images p)) an" None] o4
    have d4: "idsInOrder d4" by simp
    from None a rc o2 o3 o4 have "snd (page S a d) = d4\<lparr>pages := pages d4 @ [pr]\<rparr>"
      by (simp add: page_def Let_def)
    with d4 show ?thesis by simp
  qed
qed

lemma idsInOrder_build:
  assumes "idsInOrder d"
  shows "idsInOrder (snd (build S d))"
proof (cases "pages d \<noteq> [] \<and> \<not> built d")
  case True
  with idsInOrder_finish [OF assms] show ?thesis by (simp add: build_snd)
next
  case False
  with assms show ?thesis by (auto simp: build_def)
qed

lemma offsets_foldl_other:
  "i \<notin> obj_id ` set objs \<Longrightarrow> offsets (foldl (\<lambda>w obj. writeObject S obj w) w objs) i = offsets w i"
  by (induction objs arbitrary: w) (simp_all add: writeObject_eq)

lemma fileHeader_length: "length (encode fileHeader) = 19"
  by (simp add: fileHeader_def js_def isHigh_def isLow_def utf8cp_def)

lemma first_offset:
  assumes "idsInOrder d" and "objects d \<noteq> []"
  shows "offsets (written S (objects d)) 1 = Some 19"
proof -
  from assms(2) obtain obj objs where o: "objects d = obj # objs" by (cases "objects d") auto
  from assms(1) have "map obj_id (objects d) = [1..<Suc (length (objects d))]"
    by (simp only: idsInOrder_def)
  then have "obj_id obj # map obj_id objs = [1..<Suc (Suc (length objs))]"
    by (simp only: o list.map length_Cons)
  moreover have "[1..<Suc (Suc (length objs))] = 1 # [Suc 1..<Suc (Suc (length objs))]"
    by (rule upt_conv_Cons) simp
  ultimately have "obj_id obj # map obj_id objs = 1 # [Suc 1..<Suc (Suc (length objs))]"
    by (rule trans)
  then have i: "obj_id obj = 1" and r: "map obj_id objs = [Suc 1..<Suc (Suc (length objs))]"
    by (simp_all only: list.inject)
  have "1 \<notin> set (map obj_id objs)" unfolding r by (simp only: set_upt) simp
  then have "1 \<notin> obj_id ` set objs" by simp
  from offsets_foldl_other [OF this, of S "writeObject S obj (push (encode fileHeader) \<lparr>chunks = [], offsets = Map.empty, byteOffset = 0\<rparr>)"] i
  show ?thesis
    by (simp add: o written_def writeObject_eq push_def fileHeader_length)
qed


theorem build_xref_witness:
  "idsInOrder (snd (page (\<lambda>x. []) (PageFn []) pdf)) \<and>
   pages (snd (page (\<lambda>x. []) (PageFn []) pdf)) \<noteq> [] \<and>
   \<not> built (snd (page (\<lambda>x. []) (PageFn []) pdf)) \<and>
   (case build (\<lambda>x. []) (snd (page (\<lambda>x. []) (PageFn []) pdf)) of
      (Inl e, d') \<Rightarrow> False
    | (Inr out, d') \<Rightarrow>
        offsets (written (\<lambda>x. []) (objects d')) 1 = Some 19 \<and>
        take (length (objHeader 1)) (drop 19 out) = objHeader 1)"
proof -
  let ?S = "\<lambda>x::rat. [] :: jsstring"
  let ?d = "snd (page ?S (PageFn []) pdf)"
  have h1: "idsInOrder ?d" by (rule idsInOrder_page [OF idsInOrder_pdf])
  have h2: "pages ?d \<noteq> []" and h3: "\<not> built ?d" by (simp_all add: one_page)
  from idsInOrder_finish [OF h1] have ids: "idsInOrder (snd (finish ?d))" by simp
  have "length (objects (snd (finish d))) = length (objects d) + 3" for d
    by (simp add: finish_def addObject_def Let_def)
  then have n1: "1 \<le> length (objects (snd (finish ?d)))" and ne: "objects (snd (finish ?d)) \<noteq> []"
    by (simp_all add: length_0_conv [symmetric] del: length_0_conv)
  note f = first_offset [OF ids ne, of ?S]
  note th = build_xref [OF h1 h2 h3, of ?S, unfolded build_out [OF h2 h3] prod.case sum.case Let_def]
  from th [THEN conjunct2, THEN conjunct2, THEN spec, of 1] n1 f
  have "take (length (objHeader 1))
     (drop 19 (concat (chunks (written ?S (objects (snd (finish ?d)))))
           @ encode (xrefText (length (objects (snd (finish ?d)))) (offsets (written ?S (objects (snd (finish ?d))))))
           @ encode (trailerText ?S (length (objects (snd (finish ?d)))) (fst (finish ?d)))
           @ encode (startxrefText (byteOffset (written ?S (objects (snd (finish ?d)))))))) = objHeader 1"
    by auto
  with f have "case build ?S ?d of
      (Inl e, d') \<Rightarrow> False
    | (Inr out, d') \<Rightarrow>
        offsets (written ?S (objects d')) 1 = Some 19 \<and>
        take (length (objHeader 1)) (drop 19 out) = objHeader 1"
    by (simp only: build_out [OF h2 h3] prod.case sum.case)
  with h1 h2 h3 show ?thesis by simp
qed

end
